theory Spec2Isabelle
  imports Main "HOL-Library.Word"
begin

section \<open>The chunk decoder of \<open>ChunkDecoder.js\<close>\<close>

text \<open>
  The class \<open>ChunkDecoder\<close> is embedded function by function. JavaScript numbers that hold
  integers are \<open>int\<close>, a \<open>Buffer\<close> is a list of bytes, an absent value (\<open>undefined\<close>,
  \<open>null\<close>) is \<open>None\<close>, a thrown \<open>Error\<close> is the left summand of a sum type, and the two
  fields of the instance (\<open>blockMappings\<close>, \<open>chunkCache\<close>) form a record that every
  mutating method returns updated. Calls of \<open>console.log\<close> and \<open>console.warn\<close> have no
  influence on any returned value or field and are left out.
\<close>

subsection \<open>Numbers, bytes and strings\<close>

type_synonym byte = "8 word"

text \<open>
  The operator \<open>%\<close> of JavaScript takes the sign of the dividend (it truncates), unlike
  \<open>mod\<close> on \<open>int\<close>, which takes the sign of the divisor. The source only divides by the
  constants 16 and 256. \<open>Math.floor(a / b)\<close> on integers is \<open>a div b\<close>.
\<close>

definition js_rem :: "int \<Rightarrow> int \<Rightarrow> int" where
  "js_rem a b = sgn a * (\<bar>a\<bar> mod \<bar>b\<bar>)"

text \<open>
  The decimal rendering of an integer, as a template literal \<open>`${n}`\<close> produces it
  (for integers below \<open>10^21\<close> in absolute value, where JavaScript prints all digits).
\<close>

function natToString :: "nat \<Rightarrow> string" where
  "natToString n =
     (if n < 10 then [''0123456789'' ! n]
      else natToString (n div 10) @ [''0123456789'' ! (n mod 10)])"
  by pat_completeness auto
termination
  by (relation "measure (\<lambda>n. n)") auto

declare natToString.simps [simp del]

definition numberToString :: "int \<Rightarrow> string" where
  "numberToString n =
     (if n < 0 then CHR ''-'' # natToString (nat (- n)) else natToString (nat n))"

subsection \<open>Errors\<close>

text \<open>
  \<open>InvalidPayload\<close> is \<open>Error('Invalid chunk payload: too short')\<close>, \<open>BufferOverflow\<close> is
  \<open>Error('Buffer overflow while reading subchunk')\<close>, \<open>InvalidCoordinate\<close> is
  \<open>Error('Local coordinates must be between 0-15')\<close>, \<open>RangeError\<close> is what a \<open>Buffer\<close>
  read outside the buffer throws, and \<open>DecodeFailed x z e\<close> is the error that the
  \<open>catch\<close> of \<open>decodeChunk\<close> builds from the caught \<open>e\<close>:
  \<open>Error(`Failed to decode chunk at ${x},${z}: ${e.message}`)\<close>.
\<close>

datatype error =
    InvalidPayload
  | BufferOverflow
  | InvalidCoordinate
  | RangeError
  | DecodeFailed int int error

subsection \<open>Data\<close>

text \<open>
  The object literals of the source, one record each. Field names carry a prefix where the
  source reuses a name (\<open>index\<close>, \<open>x\<close>, \<open>y\<close>, \<open>z\<close>, \<open>id\<close>, \<open>name\<close>) in several objects.
\<close>

record block =
  b_index :: int
  b_id :: int
  b_name :: string
  b_x :: int
  b_y :: int
  b_z :: int

record layer =
  l_index :: int
  blocks :: "block list"

record subChunk =
  sc_y :: int
  version :: int
  layers :: "layer list"

record chunk =
  c_x :: int
  c_z :: int
  subChunks :: "subChunk list"

record itemstate =
  name :: string
  runtime_id :: "int option"

record decoder =
  blockMappings :: "int \<rightharpoonup> string"
  chunkCache :: "string \<rightharpoonup> chunk"

definition newDecoder :: decoder where
  "newDecoder = \<lparr>blockMappings = Map.empty, chunkCache = Map.empty\<rparr>"

subsection \<open>Block mappings\<close>

definition setBlockMappings :: "decoder \<Rightarrow> itemstate list \<Rightarrow> decoder" where
  "setBlockMappings d itemstates =
     foldl (\<lambda>d state.
              case runtime_id state of
                None \<Rightarrow> d
              | Some rid \<Rightarrow> d\<lparr>blockMappings := (blockMappings d)(rid \<mapsto> name state)\<rparr>)
           d itemstates"

text \<open>
  In \<open>this.blockMappings[blockId] || `unknown_block_${blockId}`\<close> the operator \<open>||\<close> takes
  its right operand when the left one is falsy: when the key is missing, and also when the
  stored name is the empty string.
\<close>

definition createBlockData :: "decoder \<Rightarrow> int \<Rightarrow> int \<Rightarrow> block" where
  "createBlockData d blockId index =
     \<lparr>b_index = index,
      b_id = blockId,
      b_name = (case blockMappings d blockId of
                  None \<Rightarrow> ''unknown_block_'' @ numberToString blockId
                | Some n \<Rightarrow> if n \<noteq> [] then n else ''unknown_block_'' @ numberToString blockId),
      b_x = js_rem index 16,
      b_y = index div 256,
      b_z = js_rem index 256 div 16\<rparr>"

subsection \<open>Reading the buffer\<close>

text \<open>\<open>Buffer.readInt8\<close> and \<open>Buffer.readUInt8\<close> throw outside the buffer.\<close>

definition readInt8 :: "byte list \<Rightarrow> int \<Rightarrow> error + int" where
  "readInt8 payload offset =
     (if 0 \<le> offset \<and> offset < int (length payload)
      then Inr (sint (payload ! nat offset)) else Inl RangeError)"

definition readUInt8 :: "byte list \<Rightarrow> int \<Rightarrow> error + int" where
  "readUInt8 payload offset =
     (if 0 \<le> offset \<and> offset < int (length payload)
      then Inr (uint (payload ! nat offset)) else Inl RangeError)"

subsection \<open>Decoding a subchunk\<close>

text \<open>
  The innermost loop of \<open>decodeSubChunk\<close>, \<open>for (let i = 0; i < 4096 && offset <
  payload.length - 1; i++)\<close>, with the loop variables as arguments. A throwing read is
  caught inside the loop, which then ends (\<open>break\<close>); \<open>offset++\<close> has been evaluated
  before the read throws.
\<close>

function readBlocks ::
  "decoder \<Rightarrow> byte list \<Rightarrow> int \<Rightarrow> int \<Rightarrow> block list \<Rightarrow> block list \<times> int" where
  "readBlocks d payload offset i bs =
     (if i < 4096 \<and> offset < int (length payload) - 1 then
        (case readUInt8 payload offset of
           Inl e \<Rightarrow> (bs, offset + 1)
         | Inr blockId \<Rightarrow>
             readBlocks d payload (offset + 1) (i + 1)
               (if blockId \<noteq> 0 then bs @ [createBlockData d blockId i] else bs))
      else (bs, offset))"
  by pat_completeness auto
termination
  by (relation "measure (\<lambda>(d, payload, offset, i, bs). nat (4096 - i))") auto

declare readBlocks.simps [simp del]

text \<open>
  The loop over the layers, \<open>for (let layer = 0; layer < layerCount && offset <
  payload.length - 1; layer++)\<close>. A layer without blocks is not pushed.
\<close>

function decodeLayers ::
  "decoder \<Rightarrow> byte list \<Rightarrow> int \<Rightarrow> int \<Rightarrow> int \<Rightarrow> layer list \<Rightarrow> layer list \<times> int" where
  "decodeLayers d payload layerCount offset layer ls =
     (if layer < layerCount \<and> offset < int (length payload) - 1 then
        (case readBlocks d payload offset 0 [] of
           (bs, offset') \<Rightarrow>
             decodeLayers d payload layerCount offset' (layer + 1)
               (if bs \<noteq> [] then ls @ [\<lparr>l_index = layer, blocks = bs\<rparr>] else ls))
      else (ls, offset))"
  by pat_completeness auto
termination
  by (relation "measure (\<lambda>(d, payload, layerCount, offset, layer, ls). nat (layerCount - layer))")
     auto

declare decodeLayers.simps [simp del]

text \<open>The result \<open>{ data, newOffset }\<close> is a pair.\<close>

definition decodeSubChunk ::
  "decoder \<Rightarrow> byte list \<Rightarrow> int \<Rightarrow> int \<Rightarrow> error + (subChunk \<times> int)" where
  "decodeSubChunk d payload offset yLevel =
     (if offset \<ge> int (length payload) - 1 then Inl BufferOverflow
      else
        case readInt8 payload offset of
          Inl e \<Rightarrow> Inl e
        | Inr ver \<Rightarrow>
            (case readInt8 payload (offset + 1) of
               Inl e \<Rightarrow> Inl e
             | Inr layerCount \<Rightarrow>
                 (case decodeLayers d payload layerCount (offset + 2) 0 [] of
                    (ls, newOffset) \<Rightarrow>
                      Inr (\<lparr>sc_y = yLevel, version = ver, layers = ls\<rparr>, newOffset))))"

subsection \<open>Decoding a chunk\<close>

definition cacheKey :: "int \<Rightarrow> int \<Rightarrow> string" where
  "cacheKey x z = numberToString x @ '','' @ numberToString z"

definition cacheChunk :: "decoder \<Rightarrow> chunk \<Rightarrow> decoder" where
  "cacheChunk d chunk =
     d\<lparr>chunkCache := (chunkCache d)(cacheKey (c_x chunk) (c_z chunk) \<mapsto> chunk)\<rparr>"

definition getLastDecodedChunk :: "decoder \<Rightarrow> int \<Rightarrow> int \<Rightarrow> chunk option" where
  "getLastDecodedChunk d x z = chunkCache d (cacheKey x z)"

text \<open>
  The loop of \<open>decodeChunk\<close>, \<open>for (let y = 0; y < subChunkCount && offset <
  payload.length - 1; y++)\<close>; an error of \<open>decodeSubChunk\<close> leaves the loop.
\<close>

function decodeSubChunks ::
  "decoder \<Rightarrow> byte list \<Rightarrow> int \<Rightarrow> int \<Rightarrow> int \<Rightarrow> subChunk list \<Rightarrow> error + subChunk list" where
  "decodeSubChunks d payload subChunkCount offset y scs =
     (if y < subChunkCount \<and> offset < int (length payload) - 1 then
        (case decodeSubChunk d payload offset y of
           Inl e \<Rightarrow> Inl e
         | Inr (sc, newOffset) \<Rightarrow>
             decodeSubChunks d payload subChunkCount newOffset (y + 1) (scs @ [sc]))
      else Inr scs)"
  by pat_completeness auto
termination
  by (relation "measure (\<lambda>(d, payload, subChunkCount, offset, y, scs). nat (subChunkCount - y))")
     auto

declare decodeSubChunks.simps [simp del]

text \<open>The body of the \<open>try\<close> block up to the call of \<open>cacheChunk\<close>.\<close>

definition decodeChunkBody :: "decoder \<Rightarrow> byte list option \<Rightarrow> int \<Rightarrow> int \<Rightarrow> error + chunk" where
  "decodeChunkBody d payload chunkX chunkZ =
     (case payload of
        None \<Rightarrow> Inl InvalidPayload
      | Some p \<Rightarrow>
          if length p < 2 then Inl InvalidPayload
          else
            case readInt8 p 0 of
              Inl e \<Rightarrow> Inl e
            | Inr subChunkCount \<Rightarrow>
                (case readInt8 p 1 of
                   Inl e \<Rightarrow> Inl e
                 | Inr storageVersion \<Rightarrow>
                     (case decodeSubChunks d p subChunkCount 2 0 [] of
                        Inl e \<Rightarrow> Inl e
                      | Inr scs \<Rightarrow> Inr \<lparr>c_x = chunkX, c_z = chunkZ, subChunks = scs\<rparr>)))"

text \<open>
  \<open>decodeChunk\<close> returns the chunk and the decoder with the chunk cached, or the wrapped
  error and the decoder as it was.
\<close>

definition decodeChunk ::
  "decoder \<Rightarrow> byte list option \<Rightarrow> int \<Rightarrow> int \<Rightarrow> (error + chunk) \<times> decoder" where
  "decodeChunk d payload chunkX chunkZ =
     (case decodeChunkBody d payload chunkX chunkZ of
        Inl e \<Rightarrow> (Inl (DecodeFailed chunkX chunkZ e), d)
      | Inr chunk \<Rightarrow> (Inr chunk, cacheChunk d chunk))"

subsection \<open>Querying a chunk\<close>

text \<open>The expression \<open>(localY * 256) + (z * 16) + x\<close> of \<open>getBlockAt\<close>.\<close>

definition blockIndex :: "int \<Rightarrow> int \<Rightarrow> int \<Rightarrow> int" where
  "blockIndex localY z x = (localY * 256) + (z * 16) + x"

text \<open>The loop \<open>for (const layer of subChunk.layers)\<close> with its early return.\<close>

fun findInLayers :: "int \<Rightarrow> layer list \<Rightarrow> block option" where
  "findInLayers bi [] = None"
| "findInLayers bi (l # ls) =
     (case find (\<lambda>b. b_index b = bi) (blocks l) of
        Some b \<Rightarrow> Some b
      | None \<Rightarrow> findInLayers bi ls)"

text \<open>\<open>Inr None\<close> is the returned \<open>null\<close>.\<close>

definition getBlockAt :: "chunk \<Rightarrow> int \<Rightarrow> int \<Rightarrow> int \<Rightarrow> error + block option" where
  "getBlockAt chunk x y z =
     (if x < 0 \<or> x > 15 \<or> z < 0 \<or> z > 15 then Inl InvalidCoordinate
      else
        let subChunkIndex = y div 16;
            localY = js_rem y 16
        in case find (\<lambda>sc. sc_y sc = subChunkIndex) (subChunks chunk) of
             None \<Rightarrow> Inr None
           | Some subChunk \<Rightarrow>
               (case findInLayers (blockIndex localY z x) (layers subChunk) of
                  Some b \<Rightarrow> Inr (Some b)
                | None \<Rightarrow>
                    Inr (Some \<lparr>b_index = blockIndex localY z x, b_id = 0, b_name = ''air'',
                               b_x = x, b_y = y, b_z = z\<rparr>)))"

section \<open>Properties\<close>

subsection \<open>Arithmetic of the coordinates\<close>

lemma js_rem_nonneg: "0 \<le> a \<Longrightarrow> js_rem a b = a mod \<bar>b\<bar>"
  by (cases "a = 0") (simp_all add: js_rem_def)

lemma createBlockData_sel [simp]:
  "b_index (createBlockData d blockId i) = i"
  "b_id (createBlockData d blockId i) = blockId"
  "b_x (createBlockData d blockId i) = js_rem i 16"
  "b_y (createBlockData d blockId i) = i div 256"
  "b_z (createBlockData d blockId i) = js_rem i 256 div 16"
  by (simp_all add: createBlockData_def)

lemma index_split: "(i::int) div 256 * 256 + i mod 256 div 16 * 16 + i mod 16 = i"
proof -
  have "i mod 256 mod 16 = i mod 16"
    by (simp add: mod_mod_cancel)
  then have "i mod 256 = i mod 256 div 16 * 16 + i mod 16"
    using div_mult_mod_eq [of "i mod 256" 16] by simp
  moreover have "i = i div 256 * 256 + i mod 256"
    by simp
  ultimately show ?thesis by linarith
qed

text \<open>The coordinates derived from an index in \<open>[0, 4095]\<close> lie in \<open>[0, 15]\<close>.\<close>

lemma local_in_range:
  assumes "0 \<le> i" "i \<le> 4095"
  shows "0 \<le> b_x (createBlockData d blockId i) \<and> b_x (createBlockData d blockId i) \<le> 15 \<and>
   0 \<le> b_y (createBlockData d blockId i) \<and> b_y (createBlockData d blockId i) \<le> 15 \<and>
   0 \<le> b_z (createBlockData d blockId i) \<and> b_z (createBlockData d blockId i) \<le> 15"
proof -
  have y: "0 \<le> i div 256" "i div 256 \<le> 15"
    using assms zdiv_mono1 [of i 4095 256] by (simp_all add: pos_imp_zdiv_nonneg_iff)
  have m: "0 \<le> i mod 256" "i mod 256 < 256" by simp_all
  then have z: "0 \<le> i mod 256 div 16" "i mod 256 div 16 \<le> 15"
    using zdiv_mono1 [of "i mod 256" 255 16] by (simp_all add: pos_imp_zdiv_nonneg_iff)
  have x: "0 \<le> i mod 16" "i mod 16 < 16" by simp_all
  show ?thesis using assms x y z by (simp add: js_rem_nonneg)
qed

text \<open>
  Claim C3. For every linear index \<open>i\<close> in \<open>[0, 4095]\<close>, the coordinates that
  \<open>createBlockData\<close> derives from \<open>i\<close> (\<open>x = i % 16\<close>, \<open>y = floor(i / 256)\<close>,
  \<open>z = floor((i % 256) / 16)\<close>) lie in \<open>[0, 15]\<close> and, put into the index expression
  of \<open>getBlockAt\<close> (\<open>localY * 256 + z * 16 + x\<close>), give \<open>i\<close> again.
\<close>

theorem index_roundtrip:
  assumes "0 \<le> i" and "i \<le> 4095"
  shows "blockIndex (b_y (createBlockData d blockId i)) (b_z (createBlockData d blockId i))
     (b_x (createBlockData d blockId i)) = i \<and>
   0 \<le> b_x (createBlockData d blockId i) \<and> b_x (createBlockData d blockId i) \<le> 15 \<and>
   0 \<le> b_y (createBlockData d blockId i) \<and> b_y (createBlockData d blockId i) \<le> 15 \<and>
   0 \<le> b_z (createBlockData d blockId i) \<and> b_z (createBlockData d blockId i) \<le> 15"
proof -
  have "blockIndex (b_y (createBlockData d blockId i)) (b_z (createBlockData d blockId i))
     (b_x (createBlockData d blockId i)) = i"
    using assms by (simp add: blockIndex_def js_rem_nonneg index_split)
  with local_in_range [OF assms, of d blockId] show ?thesis by blast
qed

theorem index_roundtrip_witness:
  "(0::int) \<le> 4095 \<and> (4095::int) \<le> 4095 \<and>
   b_x (createBlockData newDecoder 7 4095) = 15 \<and>
   b_y (createBlockData newDecoder 7 4095) = 15 \<and>
   b_z (createBlockData newDecoder 7 4095) = 15 \<and>
   blockIndex (b_y (createBlockData newDecoder 7 4095)) (b_z (createBlockData newDecoder 7 4095))
     (b_x (createBlockData newDecoder 7 4095)) = 4095"
  using index_roundtrip [of 4095 newDecoder 7] by (simp add: js_rem_def)

text \<open>
  The composition in the other order: local coordinates in \<open>[0, 15]\<close> are recovered from
  the index they form.
\<close>

lemma local_roundtrip:
  assumes "0 \<le> x \<and> x \<le> 15" "0 \<le> y \<and> y \<le> 15" "0 \<le> z \<and> z \<le> 15"
  shows "b_x (createBlockData d blockId (blockIndex y z x)) = x \<and>
   b_y (createBlockData d blockId (blockIndex y z x)) = y \<and>
   b_z (createBlockData d blockId (blockIndex y z x)) = z"
proof -
  let ?i = "y * 256 + z * 16 + x"
  have nn: "0 \<le> ?i" using assms by simp
  have zx: "0 \<le> z * 16 + x" "z * 16 + x < 256" using assms by simp_all
  have y: "?i div 256 = y"
    using zx by (simp add: add.assoc div_pos_pos_trivial)
  have m: "?i mod 256 = z * 16 + x"
    using zx by (simp add: add.assoc mod_pos_pos_trivial)
  have z: "(z * 16 + x) div 16 = z"
    using assms by (simp add: div_pos_pos_trivial)
  have "?i mod 16 = (?i mod 256) mod 16"
    by (simp add: mod_mod_cancel)
  then have x: "?i mod 16 = x"
    using assms by (simp add: m mod_pos_pos_trivial)
  show ?thesis
    using nn x y z m by (simp add: blockIndex_def js_rem_nonneg)
qed

subsection \<open>Payloads that are too short\<close>

text \<open>
  Claim C4. For a payload that is absent or shorter than 2 bytes, \<open>decodeChunk\<close> fails
  with the "too short" error wrapped with the chunk's coordinates, and the decoder, hence
  the cache entry of these coordinates, is as it was before the call.
\<close>

theorem decodeChunk_too_short:
  "\<forall>p. payload = Some p \<longrightarrow> length p < 2 \<Longrightarrow>
   decodeChunk d payload chunkX chunkZ = (Inl (DecodeFailed chunkX chunkZ InvalidPayload), d) \<and>
   getLastDecodedChunk (snd (decodeChunk d payload chunkX chunkZ)) chunkX chunkZ =
     getLastDecodedChunk d chunkX chunkZ"
  by (cases payload) (auto simp: decodeChunk_def decodeChunkBody_def)

theorem decodeChunk_too_short_witness:
  "length [7 :: byte] < 2 \<and>
   decodeChunk newDecoder (Some [7]) 2 3 = (Inl (DecodeFailed 2 3 InvalidPayload), newDecoder) \<and>
   decodeChunk newDecoder (Some []) 2 3 = (Inl (DecodeFailed 2 3 InvalidPayload), newDecoder) \<and>
   decodeChunk newDecoder None 2 3 = (Inl (DecodeFailed 2 3 InvalidPayload), newDecoder)"
  using decodeChunk_too_short [of "Some [7]" newDecoder 2 3]
    decodeChunk_too_short [of "Some []" newDecoder 2 3]
    decodeChunk_too_short [of None newDecoder 2 3] by simp

subsection \<open>Point queries\<close>




text \<open>
  A chunk with a subchunk in a negative slot is not one that \<open>decodeChunk\<close> returns (its
  slots are \<open>0, 1, \<dots>\<close>). On such a chunk the \<open>y % 16\<close> of the code shows: it is negative
  for a negative \<open>y\<close> that is no multiple of 16, and the query at \<open>y = -1\<close> forms the block
  index \<open>-256\<close>, where \<open>y mod 16 = 15\<close> gives \<open>3840\<close>.
\<close>

lemma getBlockAt_negative_slot:
  "getBlockAt \<lparr>c_x = 0, c_z = 0, subChunks = [\<lparr>sc_y = - 1, version = 0, layers = []\<rparr>]\<rparr> 0 (- 1) 0
     = Inr (Some \<lparr>b_index = - 256, b_id = 0, b_name = ''air'', b_x = 0, b_y = - 1, b_z = 0\<rparr>) \<and>
   js_rem (- 1) 16 = - 1 \<and> (- 1 :: int) mod 16 = 15 \<and> blockIndex ((- 1) mod 16) 0 0 = 3840"
  by (simp add: getBlockAt_def blockIndex_def js_rem_def)

text \<open>
  For \<open>y \<ge> 0\<close> the local Y is \<open>y mod 16\<close>; for a negative \<open>y\<close> that is no multiple
  of 16 it is \<open>y mod 16 - 16\<close>, a negative number. The slot is \<open>floor(y / 16)\<close> for
  every \<open>y\<close>.
\<close>

lemma js_rem_negative: "y < 0 \<Longrightarrow> y mod 16 \<noteq> 0 \<Longrightarrow> js_rem y 16 = y mod 16 - 16"
  by (simp add: js_rem_def zmod_zminus1_eq_if)

lemma getBlockAt_slot_nonneg:
  assumes "0 \<le> x" "x \<le> 15" "0 \<le> z" "z \<le> 15" "0 \<le> y"
    and "find (\<lambda>sc. sc_y sc = y div 16) (subChunks chunk) = Some sc"
    and "findInLayers (blockIndex (y mod 16) z x) (layers sc) = None"
  shows "getBlockAt chunk x y z =
    Inr (Some \<lparr>b_index = blockIndex (y mod 16) z x, b_id = 0, b_name = ''air'',
               b_x = x, b_y = y, b_z = z\<rparr>)"
  using assms by (simp add: getBlockAt_def js_rem_nonneg)

subsection \<open>The loop that reads the blocks of a layer\<close>

lemma readBlocks_stop:
  "\<not> (i < 4096 \<and> offset < int (length p) - 1) \<Longrightarrow> readBlocks d p offset i bs = (bs, offset)"
  by (subst readBlocks.simps) auto

lemma readBlocks_fail:
  "i < 4096 \<and> offset < int (length p) - 1 \<Longrightarrow> readUInt8 p offset = Inl e \<Longrightarrow>
   readBlocks d p offset i bs = (bs, offset + 1)"
  by (subst readBlocks.simps) simp

lemma readBlocks_step:
  "i < 4096 \<and> offset < int (length p) - 1 \<Longrightarrow> readUInt8 p offset = Inr blockId \<Longrightarrow>
   readBlocks d p offset i bs =
     readBlocks d p (offset + 1) (i + 1)
       (if blockId \<noteq> 0 then bs @ [createBlockData d blockId i] else bs)"
  by (subst readBlocks.simps) simp

lemma readBlocks_offset_mono: "offset \<le> snd (readBlocks d p offset i bs)"
proof (induction d p offset i bs rule: readBlocks.induct)
  case (1 d payload offset i bs)
  show ?case
  proof (cases "i < 4096 \<and> offset < int (length payload) - 1")
    case False
    then show ?thesis by (simp add: readBlocks_stop)
  next
    case True
    show ?thesis
    proof (cases "readUInt8 payload offset")
      case (Inl e)
      with True show ?thesis by (simp add: readBlocks_fail readBlocks_step)
    next
      case (Inr blockId)
      with True "1.IH" [OF True Inr] show ?thesis
        by (simp add: readBlocks_fail readBlocks_step)
    qed
  qed
qed

lemma readBlocks_sorted:
  "sorted_wrt (<) (map b_index bs) \<Longrightarrow> \<forall>b \<in> set bs. b_index b < i \<Longrightarrow>
   sorted_wrt (<) (map b_index (fst (readBlocks d p offset i bs)))"
proof (induction d p offset i bs rule: readBlocks.induct)
  case (1 d payload offset i bs)
  show ?case
  proof (cases "i < 4096 \<and> offset < int (length payload) - 1")
    case False
    with "1.prems" show ?thesis by (simp add: readBlocks_stop)
  next
    case True
    show ?thesis
    proof (cases "readUInt8 payload offset")
      case (Inl e)
      with True "1.prems" show ?thesis by (simp add: readBlocks_fail readBlocks_step)
    next
      case (Inr blockId)
      let ?bs = "if blockId \<noteq> 0 then bs @ [createBlockData d blockId i] else bs"
      have s: "sorted_wrt (<) (map b_index ?bs)"
        using "1.prems" by (simp add: sorted_wrt_append)
      have b: "\<forall>b \<in> set ?bs. b_index b < i + 1"
        using "1.prems" by auto
      from "1.IH" [OF True Inr s b] True Inr show ?thesis
        by (simp add: readBlocks_fail readBlocks_step)
    qed
  qed
qed

lemma readBlocks_ids:
  "\<forall>b \<in> set bs. b_id b \<noteq> 0 \<Longrightarrow> \<forall>b \<in> set (fst (readBlocks d p offset i bs)). b_id b \<noteq> 0"
proof (induction d p offset i bs rule: readBlocks.induct)
  case (1 d payload offset i bs)
  show ?case
  proof (cases "i < 4096 \<and> offset < int (length payload) - 1")
    case False
    with "1.prems" show ?thesis by (simp add: readBlocks_stop)
  next
    case True
    show ?thesis
    proof (cases "readUInt8 payload offset")
      case (Inl e)
      with True "1.prems" show ?thesis by (simp add: readBlocks_fail readBlocks_step)
    next
      case (Inr blockId)
      let ?bs = "if blockId \<noteq> 0 then bs @ [createBlockData d blockId i] else bs"
      have b: "\<forall>b \<in> set ?bs. b_id b \<noteq> 0"
        using "1.prems" by auto
      from "1.IH" [OF True Inr b] True Inr show ?thesis
        by (simp add: readBlocks_fail readBlocks_step)
    qed
  qed
qed

lemma readUInt8_cong:
  assumes "length p = length q" and "\<forall>k. nat offset \<le> k \<longrightarrow> k < length p \<longrightarrow> p ! k = q ! k"
  shows "readUInt8 p offset = readUInt8 q offset"
proof (cases "0 \<le> offset \<and> offset < int (length p)")
  case True
  then have "nat offset < length p" by (simp add: nat_less_iff)
  with assms(2) have "p ! nat offset = q ! nat offset" by simp
  with True assms(1) show ?thesis by (simp add: readUInt8_def)
next
  case False
  with assms(1) show ?thesis by (auto simp: readUInt8_def)
qed

lemma readBlocks_cong:
  "length p = length q \<Longrightarrow> \<forall>k. nat offset \<le> k \<longrightarrow> k < length p \<longrightarrow> p ! k = q ! k \<Longrightarrow>
   readBlocks d p offset i bs = readBlocks d q offset i bs"
proof (induction d p offset i bs rule: readBlocks.induct)
  case (1 d payload offset i bs)
  have len: "length payload = length q" by (rule "1.prems"(1))
  have r: "readUInt8 q offset = readUInt8 payload offset"
    using readUInt8_cong [OF "1.prems"] by simp
  show ?case
  proof (cases "i < 4096 \<and> offset < int (length payload) - 1")
    case False
    then have "\<not> (i < 4096 \<and> offset < int (length q) - 1)" by (simp add: len)
    with False show ?thesis by (simp add: readBlocks_stop)
  next
    case True
    then have Tq: "i < 4096 \<and> offset < int (length q) - 1" by (simp add: len)
    show ?thesis
    proof (cases "readUInt8 payload offset")
      case (Inl e)
      then have "readUInt8 q offset = Inl e" by (simp add: r)
      then show ?thesis
        by (simp add: readBlocks_fail [OF True Inl] readBlocks_fail [OF Tq])
    next
      case (Inr blockId)
      have a: "\<forall>k. nat (offset + 1) \<le> k \<longrightarrow> k < length payload \<longrightarrow> payload ! k = q ! k"
        using "1.prems" by auto
      have rq: "readUInt8 q offset = Inr blockId" using Inr by (simp add: r)
      show ?thesis
        using "1.IH" [OF True Inr len a]
        by (simp add: readBlocks_step [OF True Inr] readBlocks_step [OF Tq rq])
    qed
  qed
qed

lemma readBlocks_source:
  "0 \<le> offset \<Longrightarrow> b \<in> set (fst (readBlocks d p offset i bs)) \<Longrightarrow>
   b \<in> set bs \<or>
   (i \<le> b_index b \<and> offset + (b_index b - i) < int (length p) - 1 \<and>
    b_id b = uint (p ! nat (offset + (b_index b - i))))"
proof (induction d p offset i bs rule: readBlocks.induct)
  case (1 d payload offset i bs)
  show ?case
  proof (cases "i < 4096 \<and> offset < int (length payload) - 1")
    case False
    with "1.prems" show ?thesis by (simp add: readBlocks_stop)
  next
    case True
    show ?thesis
    proof (cases "readUInt8 payload offset")
      case (Inl e)
      with True "1.prems" show ?thesis by (simp add: readBlocks_fail readBlocks_step)
    next
      case (Inr blockId)
      let ?bs = "if blockId \<noteq> 0 then bs @ [createBlockData d blockId i] else bs"
      have o: "0 \<le> offset + 1" using "1.prems" by simp
      have m: "b \<in> set (fst (readBlocks d payload (offset + 1) (i + 1) ?bs))"
        using "1.prems"(2) True Inr by (simp add: readBlocks_fail readBlocks_step)
      have v: "blockId = uint (payload ! nat offset)"
        using Inr by (simp add: readUInt8_def split: if_splits)
      from "1.IH" [OF True Inr o m]
      consider "b \<in> set ?bs"
        | "i + 1 \<le> b_index b \<and> offset + 1 + (b_index b - (i + 1)) < int (length payload) - 1 \<and>
           b_id b = uint (payload ! nat (offset + 1 + (b_index b - (i + 1))))"
        by blast
      then show ?thesis
      proof cases
        case 1
        then show ?thesis using True v by (auto split: if_splits)
      next
        case 2
        then show ?thesis by (simp add: algebra_simps)
      qed
    qed
  qed
qed

subsection \<open>The loop over the layers\<close>

lemma decodeLayers_stop:
  "\<not> (layer < layerCount \<and> offset < int (length p) - 1) \<Longrightarrow>
   decodeLayers d p layerCount offset layer ls = (ls, offset)"
  by (subst decodeLayers.simps) auto

lemma decodeLayers_step:
  "layer < layerCount \<and> offset < int (length p) - 1 \<Longrightarrow>
   decodeLayers d p layerCount offset layer ls =
     decodeLayers d p layerCount (snd (readBlocks d p offset 0 [])) (layer + 1)
       (if fst (readBlocks d p offset 0 []) \<noteq> []
        then ls @ [\<lparr>l_index = layer, blocks = fst (readBlocks d p offset 0 [])\<rparr>] else ls)"
  by (subst decodeLayers.simps) (simp add: case_prod_unfold)

lemma decodeLayers_offset_mono: "offset \<le> snd (decodeLayers d p layerCount offset layer ls)"
proof (induction d p layerCount offset layer ls rule: decodeLayers.induct)
  case (1 d payload layerCount offset layer ls)
  show ?case
  proof (cases "layer < layerCount \<and> offset < int (length payload) - 1")
    case False
    then show ?thesis by (simp add: decodeLayers_stop)
  next
    case True
    have "offset \<le> snd (readBlocks d payload offset 0 [])"
      by (rule readBlocks_offset_mono)
    also have "\<dots> \<le> snd (decodeLayers d payload layerCount offset layer ls)"
      using "1.IH" [OF True prod.collapse [of "readBlocks d payload offset 0 []"]] by (simp add: decodeLayers_step [OF True])
    finally show ?thesis .
  qed
qed

text \<open>
  Every layer of the result satisfies a property that the layers pushed before satisfy and
  that every layer read at a cursor position from \<open>offset\<close> on satisfies.
\<close>

lemma decodeLayers_all:
  assumes "\<forall>l \<in> set ls. Q l"
    and "\<And>off layer. offset \<le> off \<Longrightarrow> fst (readBlocks d p off 0 []) \<noteq> [] \<Longrightarrow>
           Q \<lparr>l_index = layer, blocks = fst (readBlocks d p off 0 [])\<rparr>"
  shows "\<forall>l \<in> set (fst (decodeLayers d p layerCount offset layer ls)). Q l"
  using assms
proof (induction d p layerCount offset layer ls rule: decodeLayers.induct)
  case (1 d payload layerCount offset layer ls)
  show ?case
  proof (cases "layer < layerCount \<and> offset < int (length payload) - 1")
    case False
    with "1.prems"(1) show ?thesis by (simp add: decodeLayers_stop)
  next
    case True
    let ?bs = "fst (readBlocks d payload offset 0 [])"
    let ?off = "snd (readBlocks d payload offset 0 [])"
    let ?ls = "if ?bs \<noteq> [] then ls @ [\<lparr>l_index = layer, blocks = ?bs\<rparr>] else ls"
    have m: "offset \<le> ?off" by (rule readBlocks_offset_mono)
    have a: "\<forall>l \<in> set ?ls. Q l"
      using "1.prems"(1) "1.prems"(2) [of offset layer] by auto
    have b: "\<And>off layer. ?off \<le> off \<Longrightarrow> fst (readBlocks d payload off 0 []) \<noteq> [] \<Longrightarrow>
           Q \<lparr>l_index = layer, blocks = fst (readBlocks d payload off 0 [])\<rparr>"
      using "1.prems"(2) m by force
    show ?thesis
      using "1.IH" [OF True prod.collapse [of "readBlocks d payload offset 0 []"] a b]
      by (simp add: decodeLayers_step [OF True])
  qed
qed

lemma decodeLayers_cong:
  "length p = length q \<Longrightarrow> \<forall>k. nat offset \<le> k \<longrightarrow> k < length p \<longrightarrow> p ! k = q ! k \<Longrightarrow>
   decodeLayers d p layerCount offset layer ls = decodeLayers d q layerCount offset layer ls"
proof (induction d p layerCount offset layer ls rule: decodeLayers.induct)
  case (1 d payload layerCount offset layer ls)
  have len: "length payload = length q" by (rule "1.prems"(1))
  show ?case
  proof (cases "layer < layerCount \<and> offset < int (length payload) - 1")
    case False
    then have "\<not> (layer < layerCount \<and> offset < int (length q) - 1)" by (simp add: len)
    with False show ?thesis by (simp add: decodeLayers_stop)
  next
    case True
    then have Tq: "layer < layerCount \<and> offset < int (length q) - 1" by (simp add: len)
    have rb: "readBlocks d q offset 0 [] = readBlocks d payload offset 0 []"
      using readBlocks_cong [OF len "1.prems"(2)] by simp
    have "offset \<le> snd (readBlocks d payload offset 0 [])"
      by (rule readBlocks_offset_mono)
    then have a: "\<forall>k. nat (snd (readBlocks d payload offset 0 [])) \<le> k \<longrightarrow> k < length payload \<longrightarrow> payload ! k = q ! k"
      using "1.prems"(2) by auto
    show ?thesis
      using "1.IH" [OF True prod.collapse [of "readBlocks d payload offset 0 []"] len a]
      by (simp add: decodeLayers_step [OF True] decodeLayers_step [OF Tq] rb)
  qed
qed

subsection \<open>One subchunk\<close>

lemma decodeSubChunk_overflow:
  "int (length p) - 1 \<le> offset \<Longrightarrow> decodeSubChunk d p offset yLevel = Inl BufferOverflow"
  by (simp add: decodeSubChunk_def)

lemma readInt8_ok:
  "0 \<le> offset \<Longrightarrow> offset < int (length p) \<Longrightarrow> readInt8 p offset = Inr (sint (p ! nat offset))"
  by (simp add: readInt8_def)

lemma decodeSubChunk_ok:
  assumes "0 \<le> offset" "offset < int (length p) - 1"
  shows "decodeSubChunk d p offset yLevel =
     Inr (\<lparr>sc_y = yLevel, version = sint (p ! nat offset),
           layers = fst (decodeLayers d p (sint (p ! nat (offset + 1))) (offset + 2) 0 [])\<rparr>,
          snd (decodeLayers d p (sint (p ! nat (offset + 1))) (offset + 2) 0 []))"
proof -
  have r0: "readInt8 p offset = Inr (sint (p ! nat offset))"
    using assms by (simp add: readInt8_ok)
  have r1: "readInt8 p (offset + 1) = Inr (sint (p ! nat (offset + 1)))"
    using assms by (simp add: readInt8_ok)
  have g: "\<not> int (length p) - 1 \<le> offset" using assms by simp
  show ?thesis
    unfolding decodeSubChunk_def r0 r1 using g by (simp add: case_prod_unfold)
qed

lemma readInt8_cong:
  assumes "length p = length q" and "\<forall>k. nat offset \<le> k \<longrightarrow> k < length p \<longrightarrow> p ! k = q ! k"
  shows "readInt8 p offset = readInt8 q offset"
proof (cases "0 \<le> offset \<and> offset < int (length p)")
  case True
  then have "nat offset < length p" by (simp add: nat_less_iff)
  with assms(2) have "p ! nat offset = q ! nat offset" by simp
  with True assms(1) show ?thesis by (simp add: readInt8_def)
next
  case False
  with assms(1) show ?thesis by (auto simp: readInt8_def)
qed

lemma decodeSubChunk_cong:
  assumes len: "length p = length q" and a: "\<forall>k. nat offset \<le> k \<longrightarrow> k < length p \<longrightarrow> p ! k = q ! k"
  shows "decodeSubChunk d p offset yLevel = decodeSubChunk d q offset yLevel"
proof -
  have r0: "readInt8 p offset = readInt8 q offset"
    using len a by (rule readInt8_cong)
  have "\<forall>k. nat (offset + 1) \<le> k \<longrightarrow> k < length p \<longrightarrow> p ! k = q ! k"
    using a by auto
  with len have r1: "readInt8 p (offset + 1) = readInt8 q (offset + 1)"
    by (rule readInt8_cong)
  have "\<forall>k. nat (offset + 2) \<le> k \<longrightarrow> k < length p \<longrightarrow> p ! k = q ! k"
    using a by auto
  with len have l: "decodeLayers d p n (offset + 2) 0 [] = decodeLayers d q n (offset + 2) 0 []"
    for n by (rule decodeLayers_cong)
  show ?thesis
    unfolding decodeSubChunk_def r0 r1 l len ..
qed

subsection \<open>The loop over the subchunks\<close>

lemma decodeSubChunks_stop:
  "\<not> (y < n \<and> offset < int (length p) - 1) \<Longrightarrow> decodeSubChunks d p n offset y scs = Inr scs"
  by (subst decodeSubChunks.simps) auto

lemma decodeSubChunks_step:
  "y < n \<and> offset < int (length p) - 1 \<Longrightarrow> decodeSubChunk d p offset y = Inr (sc, newOffset) \<Longrightarrow>
   decodeSubChunks d p n offset y scs = decodeSubChunks d p n newOffset (y + 1) (scs @ [sc])"
  by (subst decodeSubChunks.simps) simp

lemma decodeSubChunks_fail:
  "y < n \<and> offset < int (length p) - 1 \<Longrightarrow> decodeSubChunk d p offset y = Inl e \<Longrightarrow>
   decodeSubChunks d p n offset y scs = Inl e"
  by (subst decodeSubChunks.simps) simp

lemma decodeSubChunk_offset:
  assumes "decodeSubChunk d p offset yLevel = Inr (sc, newOffset)"
  shows "offset + 2 \<le> newOffset"
proof -
  from assms obtain n where "newOffset = snd (decodeLayers d p n (offset + 2) 0 [])"
    by (auto simp: decodeSubChunk_def case_prod_unfold split: if_splits sum.splits)
  then show ?thesis by (simp add: decodeLayers_offset_mono)
qed

lemma decodeSubChunk_y:
  "decodeSubChunk d p offset yLevel = Inr (sc, newOffset) \<Longrightarrow> sc_y sc = yLevel"
  by (auto simp: decodeSubChunk_def case_prod_unfold split: if_splits sum.splits)

lemma decodeSubChunks_succeeds:
  "0 \<le> offset \<Longrightarrow> \<exists>scs'. decodeSubChunks d p n offset y scs = Inr scs'"
proof (induction d p n offset y scs rule: decodeSubChunks.induct)
  case (1 d payload subChunkCount offset y scs)
  show ?case
  proof (cases "y < subChunkCount \<and> offset < int (length payload) - 1")
    case False
    then show ?thesis by (simp add: decodeSubChunks_stop)
  next
    case True
    then have lt: "offset < int (length payload) - 1" by simp
    obtain sc newOffset where ok: "decodeSubChunk d payload offset y = Inr (sc, newOffset)"
      using decodeSubChunk_ok [OF "1.prems" lt] by blast
    have "0 \<le> newOffset"
      using decodeSubChunk_offset [OF ok] "1.prems" by simp
    from "1.IH" [OF True ok refl this] show ?thesis
      by (simp add: decodeSubChunks_step [OF True ok])
  qed
qed

text \<open>
  Every subchunk of the result satisfies a property that the subchunks pushed before
  satisfy and that every subchunk decoded at a cursor position from \<open>offset\<close> on satisfies.
\<close>

lemma decodeSubChunks_all:
  assumes "decodeSubChunks d p n offset y scs = Inr scs'"
    and "\<forall>sc \<in> set scs. Q sc"
    and "\<And>off yLevel sc off'. offset \<le> off \<Longrightarrow>
           decodeSubChunk d p off yLevel = Inr (sc, off') \<Longrightarrow> Q sc"
  shows "\<forall>sc \<in> set scs'. Q sc"
  using assms
proof (induction d p n offset y scs rule: decodeSubChunks.induct)
  case (1 d payload subChunkCount offset y scs)
  show ?case
  proof (cases "y < subChunkCount \<and> offset < int (length payload) - 1")
    case False
    with "1.prems"(1,2) show ?thesis by (simp add: decodeSubChunks_stop)
  next
    case True
    show ?thesis
    proof (cases "decodeSubChunk d payload offset y")
      case (Inl e)
      with "1.prems"(1) show ?thesis by (simp add: decodeSubChunks_fail [OF True Inl])
    next
      case (Inr r)
      obtain sc newOffset where r: "r = (sc, newOffset)" by (cases r)
      have ok: "decodeSubChunk d payload offset y = Inr (sc, newOffset)"
        using Inr r by simp
      have m: "offset \<le> newOffset" using decodeSubChunk_offset [OF ok] by simp
      have a: "decodeSubChunks d payload subChunkCount newOffset (y + 1) (scs @ [sc]) = Inr scs'"
        using "1.prems"(1) by (simp add: decodeSubChunks_step [OF True ok])
      have b: "\<forall>s \<in> set (scs @ [sc]). Q s"
        using "1.prems"(2) "1.prems"(3) [OF order_refl ok] by simp
      have c: "\<And>off yLevel s off'. newOffset \<le> off \<Longrightarrow>
           decodeSubChunk d payload off yLevel = Inr (s, off') \<Longrightarrow> Q s"
        using "1.prems"(3) m by (meson order_trans)
      from "1.IH" [OF True Inr r [symmetric] a b c] show ?thesis .
    qed
  qed
qed

lemma decodeSubChunks_cong:
  "length p = length q \<Longrightarrow> \<forall>k. nat offset \<le> k \<longrightarrow> k < length p \<longrightarrow> p ! k = q ! k \<Longrightarrow>
   decodeSubChunks d p n offset y scs = decodeSubChunks d q n offset y scs"
proof (induction d p n offset y scs rule: decodeSubChunks.induct)
  case (1 d payload subChunkCount offset y scs)
  have len: "length payload = length q" by (rule "1.prems"(1))
  have sc: "decodeSubChunk d q offset y = decodeSubChunk d payload offset y"
    using decodeSubChunk_cong [OF len "1.prems"(2)] by simp
  show ?case
  proof (cases "y < subChunkCount \<and> offset < int (length payload) - 1")
    case False
    then have "\<not> (y < subChunkCount \<and> offset < int (length q) - 1)" by (simp add: len)
    with False show ?thesis by (simp add: decodeSubChunks_stop)
  next
    case True
    then have Tq: "y < subChunkCount \<and> offset < int (length q) - 1" by (simp add: len)
    show ?thesis
    proof (cases "decodeSubChunk d payload offset y")
      case (Inl e)
      then have "decodeSubChunk d q offset y = Inl e" by (simp add: sc)
      then show ?thesis
        by (simp add: decodeSubChunks_fail [OF True Inl] decodeSubChunks_fail [OF Tq])
    next
      case (Inr r)
      obtain s newOffset where r: "r = (s, newOffset)" by (cases r)
      have ok: "decodeSubChunk d payload offset y = Inr (s, newOffset)"
        using Inr r by simp
      have okq: "decodeSubChunk d q offset y = Inr (s, newOffset)"
        using ok by (simp add: sc)
      have "offset \<le> newOffset" using decodeSubChunk_offset [OF ok] by simp
      then have a: "\<forall>k. nat newOffset \<le> k \<longrightarrow> k < length payload \<longrightarrow> payload ! k = q ! k"
        using "1.prems"(2) by auto
      from "1.IH" [OF True Inr r [symmetric] len a] show ?thesis
        by (simp add: decodeSubChunks_step [OF True ok] decodeSubChunks_step [OF Tq okq])
    qed
  qed
qed

text \<open>The subchunks pushed are numbered consecutively from \<open>y\<close>, and there are at most
  \<open>subChunkCount - y\<close> of them.\<close>

lemma decodeSubChunks_ys:
  "decodeSubChunks d p n offset y scs = Inr scs' \<Longrightarrow>
   \<exists>k. int k \<le> max 0 (n - y) \<and> map sc_y scs' = map sc_y scs @ map (\<lambda>j. y + int j) [0..<k]"
proof (induction d p n offset y scs rule: decodeSubChunks.induct)
  case (1 d payload subChunkCount offset y scs)
  show ?case
  proof (cases "y < subChunkCount \<and> offset < int (length payload) - 1")
    case False
    with "1.prems" have "scs' = scs" by (simp add: decodeSubChunks_stop)
    then have "int 0 \<le> max 0 (subChunkCount - y) \<and>
        map sc_y scs' = map sc_y scs @ map (\<lambda>j. y + int j) [0..<0]" by simp
    then show ?thesis by blast
  next
    case True
    show ?thesis
    proof (cases "decodeSubChunk d payload offset y")
      case (Inl e)
      with "1.prems" show ?thesis by (simp add: decodeSubChunks_fail [OF True Inl])
    next
      case (Inr r)
      obtain sc newOffset where r: "r = (sc, newOffset)" by (cases r)
      have ok: "decodeSubChunk d payload offset y = Inr (sc, newOffset)"
        using Inr r by simp
      have a: "decodeSubChunks d payload subChunkCount newOffset (y + 1) (scs @ [sc]) = Inr scs'"
        using "1.prems" by (simp add: decodeSubChunks_step [OF True ok])
      from "1.IH" [OF True Inr r [symmetric] a] obtain k where
        k: "int k \<le> max 0 (subChunkCount - (y + 1))"
          "map sc_y scs' = map sc_y (scs @ [sc]) @ map (\<lambda>j. y + 1 + int j) [0..<k]"
        by blast
      have "map (\<lambda>j. y + int j) [0..<Suc k] = y # map (\<lambda>j. y + 1 + int j) [0..<k]"
        by (simp add: upt_conv_Cons map_Suc_upt [symmetric] del: upt_Suc)
      then have "map sc_y scs' = map sc_y scs @ map (\<lambda>j. y + int j) [0..<Suc k]"
        using k(2) decodeSubChunk_y [OF ok] by simp
      moreover have "int (Suc k) \<le> max 0 (subChunkCount - y)"
        using k(1) True by simp
      ultimately show ?thesis by blast
    qed
  qed
qed

subsection \<open>Evaluation on concrete payloads\<close>

lemmas decode_eval =
  decodeChunk_def decodeChunkBody_def decodeSubChunks.simps decodeSubChunk_def
  decodeLayers.simps readBlocks.simps readInt8_def readUInt8_def createBlockData_def
  js_rem_def numberToString_def natToString.simps cacheChunk_def cacheKey_def
  getLastDecodedChunk_def newDecoder_def

subsection \<open>The layers of a decoded subchunk\<close>

lemma layers_of_decodeSubChunk:
  "decodeSubChunk d p offset yLevel = Inr (sc, newOffset) \<Longrightarrow>
   0 \<le> offset \<and> offset < int (length p) - 1 \<and>
   layers sc = fst (decodeLayers d p (sint (p ! nat (offset + 1))) (offset + 2) 0 [])"
  by (auto simp: decodeSubChunk_def readInt8_def case_prod_unfold split: if_splits sum.splits)

text \<open>
  Claim C7. Every layer of a subchunk that \<open>decodeSubChunk\<close> returns has at least one
  block, its blocks are in strictly ascending order of \<open>index\<close> (so no index occurs twice),
  and none of its blocks has the id 0.
\<close>

theorem decodeSubChunk_layers:
  assumes "decodeSubChunk d p offset yLevel = Inr (sc, newOffset)"
  shows "\<forall>l \<in> set (layers sc).
           blocks l \<noteq> [] \<and>
           sorted_wrt (<) (map b_index (blocks l)) \<and>
           distinct (map b_index (blocks l)) \<and>
           (\<forall>b \<in> set (blocks l). b_id b \<noteq> 0)"
proof -
  let ?Q = "\<lambda>l. blocks l \<noteq> [] \<and> sorted_wrt (<) (map b_index (blocks l)) \<and>
           distinct (map b_index (blocks l)) \<and> (\<forall>b \<in> set (blocks l). b_id b \<noteq> 0)"
  have new: "?Q \<lparr>l_index = layer, blocks = fst (readBlocks d p off 0 [])\<rparr>"
    if "fst (readBlocks d p off 0 []) \<noteq> []" for off layer
  proof -
    have s: "sorted_wrt (<) (map b_index (fst (readBlocks d p off 0 [])))"
      by (rule readBlocks_sorted) simp_all
    then have "distinct (map b_index (fst (readBlocks d p off 0 [])))"
      by (simp add: strict_sorted_iff)
    moreover have "\<forall>b \<in> set (fst (readBlocks d p off 0 [])). b_id b \<noteq> 0"
      by (rule readBlocks_ids) simp
    ultimately show ?thesis using s that by simp
  qed
  have "\<forall>l \<in> set (fst (decodeLayers d p n (offset + 2) 0 [])). ?Q l" for n
  proof (rule decodeLayers_all)
    show "\<forall>l \<in> set []. ?Q l" by simp
  next
    fix off layer
    assume "fst (readBlocks d p off 0 []) \<noteq> []"
    then show "?Q \<lparr>l_index = layer, blocks = fst (readBlocks d p off 0 [])\<rparr>"
      by (rule new)
  qed
  then show ?thesis
    using layers_of_decodeSubChunk [OF assms] by simp
qed

theorem decodeSubChunk_layers_witness:
  "decodeSubChunk newDecoder [1, 1, 5, 0, 7, 0] 0 0 =
     Inr (\<lparr>sc_y = 0, version = 1,
           layers = [\<lparr>l_index = 0,
                      blocks = [\<lparr>b_index = 0, b_id = 5, b_name = ''unknown_block_5'',
                                  b_x = 0, b_y = 0, b_z = 0\<rparr>,
                                \<lparr>b_index = 2, b_id = 7, b_name = ''unknown_block_7'',
                                  b_x = 2, b_y = 0, b_z = 0\<rparr>]\<rparr>]\<rparr>, 5) \<and>
   sorted_wrt (<) [0, 2 :: int] \<and> distinct [0, 2 :: int]"
proof -
  have h: "decodeSubChunk newDecoder [1, 1, 5, 0, 7, 0] 0 0 =
     Inr (\<lparr>sc_y = 0, version = 1,
           layers = [\<lparr>l_index = 0,
                      blocks = [\<lparr>b_index = 0, b_id = 5, b_name = ''unknown_block_5'',
                                  b_x = 0, b_y = 0, b_z = 0\<rparr>,
                                \<lparr>b_index = 2, b_id = 7, b_name = ''unknown_block_7'',
                                  b_x = 2, b_y = 0, b_z = 0\<rparr>]\<rparr>]\<rparr>, 5)"
    by (simp add: decode_eval)
  from decodeSubChunk_layers [OF h] h show ?thesis by simp
qed

subsection \<open>The header of a chunk\<close>

lemma decodeChunkBody_ok:
  assumes "2 \<le> length p"
  shows "\<exists>scs. decodeSubChunks d p (sint (p ! 0)) 2 0 [] = Inr scs \<and>
     decodeChunkBody d (Some p) chunkX chunkZ =
       Inr \<lparr>c_x = chunkX, c_z = chunkZ, subChunks = scs\<rparr>"
proof -
  obtain scs where s: "decodeSubChunks d p (sint (p ! 0)) 2 0 [] = Inr scs"
    using decodeSubChunks_succeeds [of 2 d p "sint (p ! 0)" 0 "[]"] by auto
  have r0: "readInt8 p 0 = Inr (sint (p ! 0))"
    using assms by (cases p) (simp_all add: readInt8_def)
  have r1: "readInt8 p 1 = Inr (sint (p ! 1))"
    using assms by (simp add: readInt8_def)
  have "decodeChunkBody d (Some p) chunkX chunkZ =
       Inr \<lparr>c_x = chunkX, c_z = chunkZ, subChunks = scs\<rparr>"
    using assms by (simp add: decodeChunkBody_def r0 r1 s)
  with s show ?thesis by blast
qed

lemma decodeChunk_ok:
  assumes "2 \<le> length p"
  shows "\<exists>scs. decodeSubChunks d p (sint (p ! 0)) 2 0 [] = Inr scs \<and>
     decodeChunk d (Some p) chunkX chunkZ =
       (Inr \<lparr>c_x = chunkX, c_z = chunkZ, subChunks = scs\<rparr>,
        cacheChunk d \<lparr>c_x = chunkX, c_z = chunkZ, subChunks = scs\<rparr>)"
  using decodeChunkBody_ok [OF assms, of d chunkX chunkZ]
  by (auto simp: decodeChunk_def)

subsection \<open>Point queries on decoded chunks\<close>






subsection \<open>Truncated payloads\<close>

text \<open>
  The run of the loop as a chain of cursor positions: the subchunks pushed are decoded one
  after the other, the first at the cursor the loop starts with, each next one at the
  cursor the previous one returned, and the loop ends only when the count is reached or
  the cursor has reached \<open>payload.length - 1\<close>.
\<close>

lemma decodeSubChunks_chain:
  "decodeSubChunks d p n offset y scs = Inr scs' \<Longrightarrow>
   \<exists>new offs. scs' = scs @ new \<and> length offs = length new + 1 \<and> offs ! 0 = offset \<and>
     (\<forall>j < length new.
        y + int j < n \<and> offs ! j < int (length p) - 1 \<and>
        decodeSubChunk d p (offs ! j) (y + int j) = Inr (new ! j, offs ! Suc j)) \<and>
     (n \<le> y + int (length new) \<or> int (length p) - 1 \<le> offs ! length new)"
proof (induction d p n offset y scs rule: decodeSubChunks.induct)
  case (1 d payload subChunkCount offset y scs)
  show ?case
  proof (cases "y < subChunkCount \<and> offset < int (length payload) - 1")
    case False
    with "1.prems" have "scs' = scs" by (simp add: decodeSubChunks_stop)
    with False have "scs' = scs @ [] \<and> length [offset] = length ([] :: subChunk list) + 1 \<and>
        [offset] ! 0 = offset \<and>
        (\<forall>j < length ([] :: subChunk list).
          y + int j < subChunkCount \<and> [offset] ! j < int (length payload) - 1 \<and>
          decodeSubChunk d payload ([offset] ! j) (y + int j) = Inr ([] ! j, [offset] ! Suc j)) \<and>
        (subChunkCount \<le> y + int (length ([] :: subChunk list)) \<or>
         int (length payload) - 1 \<le> [offset] ! length ([] :: subChunk list))"
      by auto
    then show ?thesis by blast
  next
    case True
    show ?thesis
    proof (cases "decodeSubChunk d payload offset y")
      case (Inl e)
      with "1.prems" show ?thesis by (simp add: decodeSubChunks_fail [OF True Inl])
    next
      case (Inr r)
      obtain sc newOffset where r: "r = (sc, newOffset)" by (cases r)
      have ok: "decodeSubChunk d payload offset y = Inr (sc, newOffset)"
        using Inr r by simp
      have a: "decodeSubChunks d payload subChunkCount newOffset (y + 1) (scs @ [sc]) = Inr scs'"
        using "1.prems" by (simp add: decodeSubChunks_step [OF True ok])
      from "1.IH" [OF True Inr r [symmetric] a] obtain new offs where
        n1: "scs' = (scs @ [sc]) @ new" and n2: "length offs = length new + 1"
        and n3: "offs ! 0 = newOffset"
        and n4: "\<forall>j < length new.
          y + 1 + int j < subChunkCount \<and> offs ! j < int (length payload) - 1 \<and>
          decodeSubChunk d payload (offs ! j) (y + 1 + int j) = Inr (new ! j, offs ! Suc j)"
        and n5: "subChunkCount \<le> y + 1 + int (length new) \<or>
          int (length payload) - 1 \<le> offs ! length new"
        by blast
      let ?new = "sc # new" and ?offs = "offset # offs"
      have c4: "y + int j < subChunkCount \<and> ?offs ! j < int (length payload) - 1 \<and>
          decodeSubChunk d payload (?offs ! j) (y + int j) = Inr (?new ! j, ?offs ! Suc j)"
        if "j < length ?new" for j
      proof (cases j)
        case 0
        with True ok n3 show ?thesis by simp
      next
        case (Suc i)
        with that have "i < length new" by simp
        with n4 have "y + 1 + int i < subChunkCount \<and> offs ! i < int (length payload) - 1 \<and>
          decodeSubChunk d payload (offs ! i) (y + 1 + int i) = Inr (new ! i, offs ! Suc i)"
          by blast
        moreover have "y + int j = y + 1 + int i" using Suc by simp
        ultimately show ?thesis using Suc by (simp add: add.assoc)
      qed
      have "scs' = scs @ ?new \<and> length ?offs = length ?new + 1 \<and> ?offs ! 0 = offset \<and>
        (\<forall>j < length ?new.
          y + int j < subChunkCount \<and> ?offs ! j < int (length payload) - 1 \<and>
          decodeSubChunk d payload (?offs ! j) (y + int j) = Inr (?new ! j, ?offs ! Suc j)) \<and>
        (subChunkCount \<le> y + int (length ?new) \<or>
         int (length payload) - 1 \<le> ?offs ! length ?new)"
        using n1 n2 n5 c4 by (simp add: add.assoc)
      then show ?thesis by blast
    qed
  qed
qed

text \<open>
  Claim C2 (as amended). For every payload of at least 2 bytes \<open>decodeChunk\<close> returns a
  chunk and caches it; it never ends with the buffer-overflow error. The subchunks of the
  chunk are exactly those that could be parsed: the first is what \<open>decodeSubChunk\<close> returns
  at the cursor position 2 for slot 0, each next one is what it returns at the cursor
  position the previous one returned, for the next slot, every one of them at a position
  that leaves room for its two header bytes, and the sequence ends only when
  \<open>subChunkCount\<close> subchunks are decoded or the cursor has reached
  \<open>payload.length - 1\<close>. In the second case the header precondition is violated, the
  guard \<open>offset < payload.length - 1\<close> of the loop ends the loop, and the chunk decoded
  so far is returned. The buffer-overflow error is the result of \<open>decodeSubChunk\<close> itself
  when it is called at such a position.
\<close>

theorem decodeChunk_returns_partial:
  assumes "2 \<le> length p"
  shows "(\<exists>scs offs.
            decodeChunk d (Some p) chunkX chunkZ =
              (Inr \<lparr>c_x = chunkX, c_z = chunkZ, subChunks = scs\<rparr>,
               cacheChunk d \<lparr>c_x = chunkX, c_z = chunkZ, subChunks = scs\<rparr>) \<and>
            length offs = length scs + 1 \<and> offs ! 0 = 2 \<and>
            (\<forall>j < length scs.
               int j < sint (p ! 0) \<and> 2 \<le> offs ! j \<and> offs ! j < int (length p) - 1 \<and>
               decodeSubChunk d p (offs ! j) (int j) = Inr (scs ! j, offs ! Suc j) \<and>
               sc_y (scs ! j) = int j) \<and>
            (sint (p ! 0) \<le> int (length scs) \<or> int (length p) - 1 \<le> offs ! length scs) \<and>
            int (length scs) \<le> max 0 (sint (p ! 0)) \<and>
            map sc_y scs = map int [0..<length scs]) \<and>
         (\<forall>offset yLevel. int (length p) - 1 \<le> offset \<longrightarrow>
            decodeSubChunk d p offset yLevel = Inl BufferOverflow)"
proof -
  obtain scs where s: "decodeSubChunks d p (sint (p ! 0)) 2 0 [] = Inr scs"
    and c: "decodeChunk d (Some p) chunkX chunkZ =
       (Inr \<lparr>c_x = chunkX, c_z = chunkZ, subChunks = scs\<rparr>,
        cacheChunk d \<lparr>c_x = chunkX, c_z = chunkZ, subChunks = scs\<rparr>)"
    using decodeChunk_ok [OF assms] by blast
  obtain k where k: "int k \<le> max 0 (sint (p ! 0))"
      "map sc_y scs = map (\<lambda>j. 0 + int j) [0..<k]"
    using decodeSubChunks_ys [OF s] by auto
  from k(2) have "length (map sc_y scs) = length (map (\<lambda>j. 0 + int j) [0..<k])"
    by (rule arg_cong)
  then have len: "length scs = k" by simp
  have ys: "map sc_y scs = map int [0..<length scs]"
    using k(2) len by simp
  obtain new offs where new: "scs = [] @ new" and o1: "length offs = length new + 1"
    and o2: "offs ! 0 = 2"
    and o3: "\<forall>j < length new.
        0 + int j < sint (p ! 0) \<and> offs ! j < int (length p) - 1 \<and>
        decodeSubChunk d p (offs ! j) (0 + int j) = Inr (new ! j, offs ! Suc j)"
    and o4: "sint (p ! 0) \<le> 0 + int (length new) \<or> int (length p) - 1 \<le> offs ! length new"
    using decodeSubChunks_chain [OF s] by blast
  have eq: "new = scs" using new by simp
  have step: "int j < sint (p ! 0) \<and> offs ! j < int (length p) - 1 \<and>
        decodeSubChunk d p (offs ! j) (int j) = Inr (scs ! j, offs ! Suc j)"
    if "j < length scs" for j
    using o3 that eq by simp
  have low: "2 \<le> offs ! j" if "j \<le> length scs" for j
    using that
  proof (induction j)
    case 0
    show ?case by (simp add: o2)
  next
    case (Suc i)
    then have "i < length scs" and "2 \<le> offs ! i" by simp_all
    moreover from \<open>i < length scs\<close>
    have "decodeSubChunk d p (offs ! i) (int i) = Inr (scs ! i, offs ! Suc i)"
      using step by blast
    then have "offs ! i + 2 \<le> offs ! Suc i" by (rule decodeSubChunk_offset)
    ultimately show ?case by simp
  qed
  have all: "\<forall>j < length scs.
       int j < sint (p ! 0) \<and> 2 \<le> offs ! j \<and> offs ! j < int (length p) - 1 \<and>
       decodeSubChunk d p (offs ! j) (int j) = Inr (scs ! j, offs ! Suc j) \<and>
       sc_y (scs ! j) = int j"
  proof (intro allI impI)
    fix j
    assume j: "j < length scs"
    from step [OF j] have d: "decodeSubChunk d p (offs ! j) (int j) = Inr (scs ! j, offs ! Suc j)"
      by simp
    then have "sc_y (scs ! j) = int j" by (rule decodeSubChunk_y)
    with step [OF j] low [of j] j show "int j < sint (p ! 0) \<and> 2 \<le> offs ! j \<and>
       offs ! j < int (length p) - 1 \<and>
       decodeSubChunk d p (offs ! j) (int j) = Inr (scs ! j, offs ! Suc j) \<and>
       sc_y (scs ! j) = int j" by simp
  qed
  have stop: "sint (p ! 0) \<le> int (length scs) \<or> int (length p) - 1 \<le> offs ! length scs"
    using o4 eq by simp
  have "\<exists>scs offs.
            decodeChunk d (Some p) chunkX chunkZ =
              (Inr \<lparr>c_x = chunkX, c_z = chunkZ, subChunks = scs\<rparr>,
               cacheChunk d \<lparr>c_x = chunkX, c_z = chunkZ, subChunks = scs\<rparr>) \<and>
            length offs = length scs + 1 \<and> offs ! 0 = 2 \<and>
            (\<forall>j < length scs.
               int j < sint (p ! 0) \<and> 2 \<le> offs ! j \<and> offs ! j < int (length p) - 1 \<and>
               decodeSubChunk d p (offs ! j) (int j) = Inr (scs ! j, offs ! Suc j) \<and>
               sc_y (scs ! j) = int j) \<and>
            (sint (p ! 0) \<le> int (length scs) \<or> int (length p) - 1 \<le> offs ! length scs) \<and>
            int (length scs) \<le> max 0 (sint (p ! 0)) \<and>
            map sc_y scs = map int [0..<length scs]"
    using c o1 o2 all stop k(1) len ys eq by blast
  moreover have "\<forall>offset yLevel. int (length p) - 1 \<le> offset \<longrightarrow>
            decodeSubChunk d p offset yLevel = Inl BufferOverflow"
    by (simp add: decodeSubChunk_overflow)
  ultimately show ?thesis by blast
qed

theorem decodeChunk_returns_partial_witness:
  "2 \<le> length [2, 0, 1, 0, 1, 1, 5, 6, 0 :: byte] \<and>
   decodeChunk newDecoder (Some [2, 0, 1, 0, 1, 1, 5, 6, 0]) 0 0 =
     (Inr \<lparr>c_x = 0, c_z = 0, subChunks =
         [\<lparr>sc_y = 0, version = 1, layers = []\<rparr>,
          \<lparr>sc_y = 1, version = 1,
            layers = [\<lparr>l_index = 0, blocks =
              [\<lparr>b_index = 0, b_id = 5, b_name = ''unknown_block_5'', b_x = 0, b_y = 0, b_z = 0\<rparr>,
               \<lparr>b_index = 1, b_id = 6, b_name = ''unknown_block_6'', b_x = 1, b_y = 0, b_z = 0\<rparr>]\<rparr>]\<rparr>]\<rparr>,
      cacheChunk newDecoder \<lparr>c_x = 0, c_z = 0, subChunks =
         [\<lparr>sc_y = 0, version = 1, layers = []\<rparr>,
          \<lparr>sc_y = 1, version = 1,
            layers = [\<lparr>l_index = 0, blocks =
              [\<lparr>b_index = 0, b_id = 5, b_name = ''unknown_block_5'', b_x = 0, b_y = 0, b_z = 0\<rparr>,
               \<lparr>b_index = 1, b_id = 6, b_name = ''unknown_block_6'', b_x = 1, b_y = 0, b_z = 0\<rparr>]\<rparr>]\<rparr>]\<rparr>) \<and>
   decodeSubChunk newDecoder [2, 0, 1, 0, 1, 1, 5, 6, 0] 2 0 =
     Inr (\<lparr>sc_y = 0, version = 1, layers = []\<rparr>, 4) \<and>
   decodeSubChunk newDecoder [2, 0, 1, 0, 1, 1, 5, 6, 0] 4 1 =
     Inr (\<lparr>sc_y = 1, version = 1,
            layers = [\<lparr>l_index = 0, blocks =
              [\<lparr>b_index = 0, b_id = 5, b_name = ''unknown_block_5'', b_x = 0, b_y = 0, b_z = 0\<rparr>,
               \<lparr>b_index = 1, b_id = 6, b_name = ''unknown_block_6'', b_x = 1, b_y = 0, b_z = 0\<rparr>]\<rparr>]\<rparr>, 8) \<and>
   decodeSubChunk newDecoder [2, 0, 1, 0, 1, 1, 5, 6, 0] 8 2 = Inl BufferOverflow"
proof -
  have h: "2 \<le> length [2, 0, 1, 0, 1, 1, 5, 6, 0 :: byte]" by simp
  have e: "decodeChunk newDecoder (Some [2, 0, 1, 0, 1, 1, 5, 6, 0]) 0 0 =
     (Inr \<lparr>c_x = 0, c_z = 0, subChunks =
         [\<lparr>sc_y = 0, version = 1, layers = []\<rparr>,
          \<lparr>sc_y = 1, version = 1,
            layers = [\<lparr>l_index = 0, blocks =
              [\<lparr>b_index = 0, b_id = 5, b_name = ''unknown_block_5'', b_x = 0, b_y = 0, b_z = 0\<rparr>,
               \<lparr>b_index = 1, b_id = 6, b_name = ''unknown_block_6'', b_x = 1, b_y = 0, b_z = 0\<rparr>]\<rparr>]\<rparr>]\<rparr>,
      cacheChunk newDecoder \<lparr>c_x = 0, c_z = 0, subChunks =
         [\<lparr>sc_y = 0, version = 1, layers = []\<rparr>,
          \<lparr>sc_y = 1, version = 1,
            layers = [\<lparr>l_index = 0, blocks =
              [\<lparr>b_index = 0, b_id = 5, b_name = ''unknown_block_5'', b_x = 0, b_y = 0, b_z = 0\<rparr>,
               \<lparr>b_index = 1, b_id = 6, b_name = ''unknown_block_6'', b_x = 1, b_y = 0, b_z = 0\<rparr>]\<rparr>]\<rparr>]\<rparr>)"
    by (simp add: decode_eval)
  have s0: "decodeSubChunk newDecoder [2, 0, 1, 0, 1, 1, 5, 6, 0] 2 0 =
     Inr (\<lparr>sc_y = 0, version = 1, layers = []\<rparr>, 4)"
    by (simp add: decode_eval)
  have s1: "decodeSubChunk newDecoder [2, 0, 1, 0, 1, 1, 5, 6, 0] 4 1 =
     Inr (\<lparr>sc_y = 1, version = 1,
            layers = [\<lparr>l_index = 0, blocks =
              [\<lparr>b_index = 0, b_id = 5, b_name = ''unknown_block_5'', b_x = 0, b_y = 0, b_z = 0\<rparr>,
               \<lparr>b_index = 1, b_id = 6, b_name = ''unknown_block_6'', b_x = 1, b_y = 0, b_z = 0\<rparr>]\<rparr>]\<rparr>, 8)"
    by (simp add: decode_eval)
  from decodeChunk_returns_partial [OF h, of newDecoder 0 0]
  have "decodeSubChunk newDecoder [2, 0, 1, 0, 1, 1, 5, 6, 0] 8 2 = Inl BufferOverflow" by simp
  with h e s0 s1 show ?thesis by simp
qed

text \<open>
  The claim as first stated fails on the payload \<open>[2, 0, 1, 1, 5, 0]\<close>: it declares two
  subchunks and supplies one; at the cursor position 5 the header precondition is violated
  (\<open>decodeSubChunk\<close> fails there), and \<open>decodeChunk\<close> returns the chunk with the first
  subchunk instead of failing.
\<close>

theorem decodeChunk_returns_partial_counterexample:
  "sint (2 :: byte) = 2 \<and>
   decodeSubChunk newDecoder [2, 0, 1, 1, 5, 0] 5 1 = Inl BufferOverflow \<and>
   fst (decodeChunk newDecoder (Some [2, 0, 1, 1, 5, 0]) 0 0) =
     Inr \<lparr>c_x = 0, c_z = 0, subChunks = [\<lparr>sc_y = 0, version = 1,
        layers = [\<lparr>l_index = 0, blocks = [\<lparr>b_index = 0, b_id = 5,
          b_name = ''unknown_block_5'', b_x = 0, b_y = 0, b_z = 0\<rparr>]\<rparr>]\<rparr>]\<rparr> \<and>
   fst (decodeChunk newDecoder (Some [2, 0, 1, 1, 5, 0]) 0 0) \<noteq>
     Inl (DecodeFailed 0 0 BufferOverflow)"
  by (simp add: decode_eval)

subsection \<open>The storage version\<close>

text \<open>
  Claim C9. Two payloads of the same length, at least 2, that differ at most in the byte
  at offset 1 give the same result of \<open>decodeChunk\<close> for the same coordinates and the same
  decoder: the same chunk and the same decoder afterwards (mappings and cache).
\<close>

theorem decodeChunk_ignores_storageVersion:
  assumes "length p = length q" and "2 \<le> length p"
    and "\<forall>k < length p. k \<noteq> 1 \<longrightarrow> p ! k = q ! k"
  shows "decodeChunk d (Some p) chunkX chunkZ = decodeChunk d (Some q) chunkX chunkZ"
proof -
  have lq: "2 \<le> length q" using assms by simp
  have "\<forall>k. nat 2 \<le> k \<longrightarrow> k < length p \<longrightarrow> p ! k = q ! k"
    using assms(3) by auto
  with assms(1) have s: "decodeSubChunks d p n 2 0 [] = decodeSubChunks d q n 2 0 []" for n
    by (rule decodeSubChunks_cong)
  have "0 < length p \<and> (0::nat) \<noteq> 1" using assms(2) by auto
  with assms(3) have h: "p ! 0 = q ! 0" by blast
  obtain scs where "decodeSubChunks d p (sint (p ! 0)) 2 0 [] = Inr scs"
    and cp: "decodeChunk d (Some p) chunkX chunkZ =
       (Inr \<lparr>c_x = chunkX, c_z = chunkZ, subChunks = scs\<rparr>,
        cacheChunk d \<lparr>c_x = chunkX, c_z = chunkZ, subChunks = scs\<rparr>)"
    using decodeChunk_ok [OF assms(2)] by blast
  moreover obtain scs' where "decodeSubChunks d q (sint (q ! 0)) 2 0 [] = Inr scs'"
    and cq: "decodeChunk d (Some q) chunkX chunkZ =
       (Inr \<lparr>c_x = chunkX, c_z = chunkZ, subChunks = scs'\<rparr>,
        cacheChunk d \<lparr>c_x = chunkX, c_z = chunkZ, subChunks = scs'\<rparr>)"
    using decodeChunk_ok [OF lq] by blast
  ultimately have "scs = scs'" using s h by simp
  with cp cq show ?thesis by simp
qed

theorem decodeChunk_ignores_storageVersion_witness:
  "length [1, 8, 1, 1, 5, 0 :: byte] = length [1, 99, 1, 1, 5, 0 :: byte] \<and>
   2 \<le> length [1, 8, 1, 1, 5, 0 :: byte] \<and>
   [1, 99, 1, 1, 5, 0 :: byte] = [1, 8, 1, 1, 5, 0][1 := 99] \<and>
   decodeChunk newDecoder (Some [1, 8, 1, 1, 5, 0]) 0 0 =
     decodeChunk newDecoder (Some [1, 99, 1, 1, 5, 0]) 0 0 \<and>
   fst (decodeChunk newDecoder (Some [1, 99, 1, 1, 5, 0]) 0 0) =
     Inr \<lparr>c_x = 0, c_z = 0, subChunks = [\<lparr>sc_y = 0, version = 1,
        layers = [\<lparr>l_index = 0, blocks = [\<lparr>b_index = 0, b_id = 5,
          b_name = ''unknown_block_5'', b_x = 0, b_y = 0, b_z = 0\<rparr>]\<rparr>]\<rparr>]\<rparr>"
proof -
  have u: "[1, 99, 1, 1, 5, 0 :: byte] = [1, 8, 1, 1, 5, 0][1 := 99]" by simp
  have a: "\<forall>k < length [1, 8, 1, 1, 5, 0 :: byte].
      k \<noteq> 1 \<longrightarrow> [1, 8, 1, 1, 5, 0 :: byte] ! k = [1, 99, 1, 1, 5, 0 :: byte] ! k"
    unfolding u by (simp del: list_update.simps)
  have e: "decodeChunk newDecoder (Some [1, 8, 1, 1, 5, 0]) 0 0 =
     decodeChunk newDecoder (Some [1, 99, 1, 1, 5, 0]) 0 0"
    by (rule decodeChunk_ignores_storageVersion [OF _ _ a]) simp_all
  have "fst (decodeChunk newDecoder (Some [1, 99, 1, 1, 5, 0]) 0 0) =
     Inr \<lparr>c_x = 0, c_z = 0, subChunks = [\<lparr>sc_y = 0, version = 1,
        layers = [\<lparr>l_index = 0, blocks = [\<lparr>b_index = 0, b_id = 5,
          b_name = ''unknown_block_5'', b_x = 0, b_y = 0, b_z = 0\<rparr>]\<rparr>]\<rparr>]\<rparr>"
    by (simp add: decode_eval)
  with e show ?thesis by simp
qed

subsection \<open>Where block ids are read\<close>

text \<open>
  A loop that starts with the cursor at or below \<open>payload.length - 1\<close> never moves it
  past that position.
\<close>

lemma readBlocks_cursor:
  "snd (readBlocks d p offset i bs) \<le> max offset (int (length p) - 1)"
proof (induction d p offset i bs rule: readBlocks.induct)
  case (1 d payload offset i bs)
  show ?case
  proof (cases "i < 4096 \<and> offset < int (length payload) - 1")
    case False
    then show ?thesis by (simp add: readBlocks_stop)
  next
    case True
    show ?thesis
    proof (cases "readUInt8 payload offset")
      case (Inl e)
      with True show ?thesis by (simp add: readBlocks_fail)
    next
      case (Inr blockId)
      from "1.IH" [OF True Inr] True show ?thesis
        by (simp add: readBlocks_step [OF True Inr])
    qed
  qed
qed

lemma decodeLayers_cursor:
  "snd (decodeLayers d p layerCount offset layer ls) \<le> max offset (int (length p) - 1)"
proof (induction d p layerCount offset layer ls rule: decodeLayers.induct)
  case (1 d payload layerCount offset layer ls)
  show ?case
  proof (cases "layer < layerCount \<and> offset < int (length payload) - 1")
    case False
    then show ?thesis by (simp add: decodeLayers_stop)
  next
    case True
    have "snd (readBlocks d payload offset 0 []) \<le> max offset (int (length payload) - 1)"
      by (rule readBlocks_cursor)
    with "1.IH" [OF True prod.collapse [of "readBlocks d payload offset 0 []"]] True
    show ?thesis
      by (simp add: decodeLayers_step [OF True])
  qed
qed

lemma decodeLayers_sources:
  assumes "0 \<le> offset"
  shows "\<forall>l \<in> set (fst (decodeLayers d p layerCount offset layer [])).
           \<forall>b \<in> set (blocks l).
             \<exists>k. offset \<le> k \<and> k < int (length p) - 1 \<and> b_id b = uint (p ! nat k) \<and>
                 0 \<le> b_index b \<and> b_index b \<le> k - offset"
proof (rule decodeLayers_all)
  show "\<forall>l \<in> set []. \<forall>b \<in> set (blocks l).
             \<exists>k. offset \<le> k \<and> k < int (length p) - 1 \<and> b_id b = uint (p ! nat k) \<and>
                 0 \<le> b_index b \<and> b_index b \<le> k - offset" by simp
next
  fix off lay
  assume o: "offset \<le> off"
  show "\<forall>b \<in> set (blocks \<lparr>l_index = lay, blocks = fst (readBlocks d p off 0 [])\<rparr>).
             \<exists>k. offset \<le> k \<and> k < int (length p) - 1 \<and> b_id b = uint (p ! nat k) \<and>
                 0 \<le> b_index b \<and> b_index b \<le> k - offset"
  proof
    fix b
    assume "b \<in> set (blocks \<lparr>l_index = lay, blocks = fst (readBlocks d p off 0 [])\<rparr>)"
    then have m: "b \<in> set (fst (readBlocks d p off 0 []))" by simp
    have "0 \<le> off" using assms o by simp
    from readBlocks_source [OF this m]
    have s: "0 \<le> b_index b" "off + b_index b < int (length p) - 1"
      "b_id b = uint (p ! nat (off + b_index b))" by simp_all
    have "offset \<le> off + b_index b \<and> off + b_index b < int (length p) - 1 \<and>
        b_id b = uint (p ! nat (off + b_index b)) \<and>
        0 \<le> b_index b \<and> b_index b \<le> off + b_index b - offset"
      using s o by simp
    then show "\<exists>k. offset \<le> k \<and> k < int (length p) - 1 \<and> b_id b = uint (p ! nat k) \<and>
                 0 \<le> b_index b \<and> b_index b \<le> k - offset" by blast
  qed
qed

lemma decodeSubChunk_sources:
  assumes "decodeSubChunk d p off yLevel = Inr (sc, off')" and "2 \<le> off"
  shows "\<forall>l \<in> set (layers sc). \<forall>b \<in> set (blocks l).
             \<exists>k. 4 \<le> k \<and> k < int (length p) - 1 \<and> b_id b = uint (p ! nat k) \<and>
                 0 \<le> b_index b \<and> b_index b \<le> k - 4"
proof (intro ballI)
  fix l b
  assume l: "l \<in> set (layers sc)" and b: "b \<in> set (blocks l)"
  have ls: "layers sc = fst (decodeLayers d p (sint (p ! nat (off + 1))) (off + 2) 0 [])"
    using layers_of_decodeSubChunk [OF assms(1)] by simp
  have "0 \<le> off + 2" using assms(2) by simp
  from decodeLayers_sources [OF this, of d p "sint (p ! nat (off + 1))" 0] l b ls
  obtain k where "off + 2 \<le> k" "k < int (length p) - 1" "b_id b = uint (p ! nat k)"
      "0 \<le> b_index b" "b_index b \<le> k - (off + 2)"
    by auto
  then have "4 \<le> k \<and> k < int (length p) - 1 \<and> b_id b = uint (p ! nat k) \<and>
                 0 \<le> b_index b \<and> b_index b \<le> k - 4"
    using assms(2) by simp
  then show "\<exists>k. 4 \<le> k \<and> k < int (length p) - 1 \<and> b_id b = uint (p ! nat k) \<and>
                 0 \<le> b_index b \<and> b_index b \<le> k - 4" by blast
qed

text \<open>
  The last byte of the payload has no influence on what the loops return: two payloads of
  the same length that agree below the position \<open>payload.length - 1\<close> decode alike.
\<close>

lemma readUInt8_below_last:
  assumes "length p = length q" and "\<forall>k. int k < int (length p) - 1 \<longrightarrow> p ! k = q ! k"
    and "offset < int (length p) - 1"
  shows "readUInt8 p offset = readUInt8 q offset"
proof (cases "0 \<le> offset")
  case True
  then have "int (nat offset) < int (length p) - 1" using assms(3) by simp
  then have "p ! nat offset = q ! nat offset" using assms(2) by blast
  then show ?thesis using assms(1) by (simp add: readUInt8_def)
next
  case False
  then show ?thesis by (simp add: readUInt8_def)
qed

lemma readInt8_below_last:
  assumes "length p = length q" and "\<forall>k. int k < int (length p) - 1 \<longrightarrow> p ! k = q ! k"
    and "offset < int (length p) - 1"
  shows "readInt8 p offset = readInt8 q offset"
proof (cases "0 \<le> offset")
  case True
  then have "int (nat offset) < int (length p) - 1" using assms(3) by simp
  then have "p ! nat offset = q ! nat offset" using assms(2) by blast
  then show ?thesis using assms(1) by (simp add: readInt8_def)
next
  case False
  then show ?thesis by (simp add: readInt8_def)
qed

lemma readBlocks_below_last:
  "length p = length q \<Longrightarrow> \<forall>k. int k < int (length p) - 1 \<longrightarrow> p ! k = q ! k \<Longrightarrow>
   readBlocks d p offset i bs = readBlocks d q offset i bs"
proof (induction d p offset i bs rule: readBlocks.induct)
  case (1 d payload offset i bs)
  have len: "length payload = length q" by (rule "1.prems"(1))
  show ?case
  proof (cases "i < 4096 \<and> offset < int (length payload) - 1")
    case False
    then have "\<not> (i < 4096 \<and> offset < int (length q) - 1)" by (simp add: len)
    with False show ?thesis by (simp add: readBlocks_stop)
  next
    case True
    then have Tq: "i < 4096 \<and> offset < int (length q) - 1" by (simp add: len)
    have r: "readUInt8 q offset = readUInt8 payload offset"
      using readUInt8_below_last [OF "1.prems"] True by simp
    show ?thesis
    proof (cases "readUInt8 payload offset")
      case (Inl e)
      then have "readUInt8 q offset = Inl e" by (simp add: r)
      then show ?thesis
        by (simp add: readBlocks_fail [OF True Inl] readBlocks_fail [OF Tq])
    next
      case (Inr blockId)
      have rq: "readUInt8 q offset = Inr blockId" using Inr by (simp add: r)
      show ?thesis
        using "1.IH" [OF True Inr "1.prems"]
        by (simp add: readBlocks_step [OF True Inr] readBlocks_step [OF Tq rq])
    qed
  qed
qed

lemma decodeLayers_below_last:
  "length p = length q \<Longrightarrow> \<forall>k. int k < int (length p) - 1 \<longrightarrow> p ! k = q ! k \<Longrightarrow>
   decodeLayers d p layerCount offset layer ls = decodeLayers d q layerCount offset layer ls"
proof (induction d p layerCount offset layer ls rule: decodeLayers.induct)
  case (1 d payload layerCount offset layer ls)
  have len: "length payload = length q" by (rule "1.prems"(1))
  show ?case
  proof (cases "layer < layerCount \<and> offset < int (length payload) - 1")
    case False
    then have "\<not> (layer < layerCount \<and> offset < int (length q) - 1)" by (simp add: len)
    with False show ?thesis by (simp add: decodeLayers_stop)
  next
    case True
    then have Tq: "layer < layerCount \<and> offset < int (length q) - 1" by (simp add: len)
    have rb: "readBlocks d q offset 0 [] = readBlocks d payload offset 0 []"
      using readBlocks_below_last [OF "1.prems"] by simp
    show ?thesis
      using "1.IH" [OF True prod.collapse [of "readBlocks d payload offset 0 []"] "1.prems"]
      by (simp add: decodeLayers_step [OF True] decodeLayers_step [OF Tq] rb)
  qed
qed

lemma decodeSubChunk_below_last:
  assumes len: "length p = length q"
    and a: "\<forall>k. int k < int (length p) - 1 \<longrightarrow> p ! k = q ! k"
  shows "decodeSubChunk d p offset yLevel = decodeSubChunk d q offset yLevel"
proof (cases "offset < int (length p) - 1")
  case False
  then show ?thesis using len by (simp add: decodeSubChunk_def)
next
  case below: True
  have r0: "readInt8 q offset = readInt8 p offset"
    using readInt8_below_last [OF len a below] by simp
  show ?thesis
  proof (cases "0 \<le> offset")
    case False
    then have "readInt8 p offset = Inl RangeError" by (simp add: readInt8_def)
    then show ?thesis using below len r0 by (simp add: decodeSubChunk_def)
  next
    case True
    have okp: "decodeSubChunk d p offset yLevel =
       Inr (\<lparr>sc_y = yLevel, version = sint (p ! nat offset),
           layers = fst (decodeLayers d p (sint (p ! nat (offset + 1))) (offset + 2) 0 [])\<rparr>,
          snd (decodeLayers d p (sint (p ! nat (offset + 1))) (offset + 2) 0 []))"
      using True below by (rule decodeSubChunk_ok)
    have belowq: "offset < int (length q) - 1" using below len by simp
    have okq: "decodeSubChunk d q offset yLevel =
       Inr (\<lparr>sc_y = yLevel, version = sint (q ! nat offset),
           layers = fst (decodeLayers d q (sint (q ! nat (offset + 1))) (offset + 2) 0 [])\<rparr>,
          snd (decodeLayers d q (sint (q ! nat (offset + 1))) (offset + 2) 0 []))"
      using True belowq by (rule decodeSubChunk_ok)
    have "int (nat offset) < int (length p) - 1" using True below by simp
    then have v: "p ! nat offset = q ! nat offset" using a by blast
    have l: "decodeLayers d p (sint (p ! nat (offset + 1))) (offset + 2) 0 [] =
        decodeLayers d q (sint (q ! nat (offset + 1))) (offset + 2) 0 []"
    proof (cases "offset + 1 < int (length p) - 1")
      case True
      with \<open>0 \<le> offset\<close> have "int (nat (offset + 1)) < int (length p) - 1" by simp
      then have "p ! nat (offset + 1) = q ! nat (offset + 1)" using a by blast
      then show ?thesis using decodeLayers_below_last [OF len a] by simp
    next
      case False
      then have "\<not> (0 < n \<and> offset + 2 < int (length p) - 1)" for n :: int by simp
      moreover from False have "\<not> (0 < n \<and> offset + 2 < int (length q) - 1)" for n :: int
        using len by simp
      ultimately show ?thesis by (simp add: decodeLayers_stop)
    qed
    show ?thesis by (simp add: okp okq v l)
  qed
qed

lemma decodeSubChunks_below_last:
  "length p = length q \<Longrightarrow> \<forall>k. int k < int (length p) - 1 \<longrightarrow> p ! k = q ! k \<Longrightarrow>
   decodeSubChunks d p n offset y scs = decodeSubChunks d q n offset y scs"
proof (induction d p n offset y scs rule: decodeSubChunks.induct)
  case (1 d payload subChunkCount offset y scs)
  have len: "length payload = length q" by (rule "1.prems"(1))
  have sc: "decodeSubChunk d q offset y = decodeSubChunk d payload offset y"
    using decodeSubChunk_below_last [OF "1.prems"] by simp
  show ?case
  proof (cases "y < subChunkCount \<and> offset < int (length payload) - 1")
    case False
    then have "\<not> (y < subChunkCount \<and> offset < int (length q) - 1)" by (simp add: len)
    with False show ?thesis by (simp add: decodeSubChunks_stop)
  next
    case True
    then have Tq: "y < subChunkCount \<and> offset < int (length q) - 1" by (simp add: len)
    show ?thesis
    proof (cases "decodeSubChunk d payload offset y")
      case (Inl e)
      then have "decodeSubChunk d q offset y = Inl e" by (simp add: sc)
      then show ?thesis
        by (simp add: decodeSubChunks_fail [OF True Inl] decodeSubChunks_fail [OF Tq])
    next
      case (Inr r)
      obtain s newOffset where r: "r = (s, newOffset)" by (cases r)
      have ok: "decodeSubChunk d payload offset y = Inr (s, newOffset)"
        using Inr r by simp
      have okq: "decodeSubChunk d q offset y = Inr (s, newOffset)"
        using ok by (simp add: sc)
      from "1.IH" [OF True Inr r [symmetric] "1.prems"] show ?thesis
        by (simp add: decodeSubChunks_step [OF True ok] decodeSubChunks_step [OF Tq okq])
    qed
  qed
qed

lemma decodeChunk_below_last:
  assumes len: "length p = length q" and "2 \<le> length p"
    and a: "\<forall>k. int k < int (length p) - 1 \<longrightarrow> p ! k = q ! k"
  shows "decodeChunk d (Some p) chunkX chunkZ = decodeChunk d (Some q) chunkX chunkZ"
proof -
  have lq: "2 \<le> length q" using assms by simp
  have s: "decodeSubChunks d p n 2 0 [] = decodeSubChunks d q n 2 0 []" for n
    using len a by (rule decodeSubChunks_below_last)
  have "int 0 < int (length p) - 1" using assms(2) by simp
  then have h: "p ! 0 = q ! 0" using a by blast
  obtain scs where "decodeSubChunks d p (sint (p ! 0)) 2 0 [] = Inr scs"
    and cp: "decodeChunk d (Some p) chunkX chunkZ =
       (Inr \<lparr>c_x = chunkX, c_z = chunkZ, subChunks = scs\<rparr>,
        cacheChunk d \<lparr>c_x = chunkX, c_z = chunkZ, subChunks = scs\<rparr>)"
    using decodeChunk_ok [OF assms(2)] by blast
  moreover obtain scs' where "decodeSubChunks d q (sint (q ! 0)) 2 0 [] = Inr scs'"
    and cq: "decodeChunk d (Some q) chunkX chunkZ =
       (Inr \<lparr>c_x = chunkX, c_z = chunkZ, subChunks = scs'\<rparr>,
        cacheChunk d \<lparr>c_x = chunkX, c_z = chunkZ, subChunks = scs'\<rparr>)"
    using decodeChunk_ok [OF lq] by blast
  ultimately have "scs = scs'" using s h by simp
  with cp cq show ?thesis by simp
qed

lemma decodeChunk_last_byte:
  assumes "2 \<le> length p"
  shows "decodeChunk d (Some (p[length p - 1 := v])) chunkX chunkZ =
    decodeChunk d (Some p) chunkX chunkZ"
proof (rule decodeChunk_below_last)
  show "length (p[length p - 1 := v]) = length p" by simp
  show "2 \<le> length (p[length p - 1 := v])" using assms by simp
  show "\<forall>k. int k < int (length (p[length p - 1 := v])) - 1 \<longrightarrow> p[length p - 1 := v] ! k = p ! k"
    by auto
qed

text \<open>
  Claim C10. Every block of a decoded chunk has as id the byte at an offset that is at least
  4 and strictly less than \<open>payload.length - 1\<close>, and its index is at most that offset
  minus 4: the last byte of the payload is never read as a block id, and no block id is
  read outside the buffer. In particular, a chunk decoded from a payload of
  \<open>2 + 2 + 4096\<close> bytes has no block with index 4095, whatever its last byte is.
  Moreover the result of \<open>decodeChunk\<close> does not depend on the last byte at all.
\<close>

theorem block_ids_before_last_byte:
  assumes "2 \<le> length p"
  shows "(\<exists>c. decodeChunk d (Some p) chunkX chunkZ = (Inr c, cacheChunk d c) \<and>
     (\<forall>sc \<in> set (subChunks c). \<forall>l \<in> set (layers sc). \<forall>b \<in> set (blocks l).
        (\<exists>offset. 4 \<le> offset \<and> offset < int (length p) - 1 \<and>
           b_id b = uint (p ! nat offset) \<and> 0 \<le> b_index b \<and> b_index b \<le> offset - 4) \<and>
        (length p = 4100 \<longrightarrow> b_index b \<noteq> 4095))) \<and>
   (\<forall>v. decodeChunk d (Some (p[length p - 1 := v])) chunkX chunkZ =
        decodeChunk d (Some p) chunkX chunkZ)"
proof -
  obtain scs where s: "decodeSubChunks d p (sint (p ! 0)) 2 0 [] = Inr scs"
    and c: "decodeChunk d (Some p) chunkX chunkZ =
       (Inr \<lparr>c_x = chunkX, c_z = chunkZ, subChunks = scs\<rparr>,
        cacheChunk d \<lparr>c_x = chunkX, c_z = chunkZ, subChunks = scs\<rparr>)"
    using decodeChunk_ok [OF assms] by blast
  let ?S = "\<lambda>b. \<exists>offset. 4 \<le> offset \<and> offset < int (length p) - 1 \<and>
           b_id b = uint (p ! nat offset) \<and> 0 \<le> b_index b \<and> b_index b \<le> offset - 4"
  have src: "\<forall>sc \<in> set scs. \<forall>l \<in> set (layers sc). \<forall>b \<in> set (blocks l). ?S b"
  proof (rule decodeSubChunks_all [OF s])
    show "\<forall>sc \<in> set []. \<forall>l \<in> set (layers sc). \<forall>b \<in> set (blocks l). ?S b" by simp
  next
    fix off yLevel sc off'
    assume "(2::int) \<le> off" and "decodeSubChunk d p off yLevel = Inr (sc, off')"
    then show "\<forall>l \<in> set (layers sc). \<forall>b \<in> set (blocks l). ?S b"
      by (rule decodeSubChunk_sources [rotated])
  qed
  have last: "length p = 4100 \<longrightarrow> b_index b \<noteq> 4095" if "?S b" for b
    using that by auto
  have "\<forall>sc \<in> set scs. \<forall>l \<in> set (layers sc). \<forall>b \<in> set (blocks l).
      ?S b \<and> (length p = 4100 \<longrightarrow> b_index b \<noteq> 4095)"
    using src last by blast
  with c have "\<exists>c. decodeChunk d (Some p) chunkX chunkZ = (Inr c, cacheChunk d c) \<and>
     (\<forall>sc \<in> set (subChunks c). \<forall>l \<in> set (layers sc). \<forall>b \<in> set (blocks l).
        ?S b \<and> (length p = 4100 \<longrightarrow> b_index b \<noteq> 4095))"
    by (intro exI [of _ "\<lparr>c_x = chunkX, c_z = chunkZ, subChunks = scs\<rparr>"]) simp
  moreover have "\<forall>v. decodeChunk d (Some (p[length p - 1 := v])) chunkX chunkZ =
        decodeChunk d (Some p) chunkX chunkZ"
    using decodeChunk_last_byte [OF assms] by blast
  ultimately show ?thesis by blast
qed

theorem block_ids_before_last_byte_witness:
  "2 \<le> length [1, 8, 1, 1, 5, 9 :: byte] \<and>
   decodeChunk newDecoder (Some [1, 8, 1, 1, 5, 9]) 0 0 =
     (Inr \<lparr>c_x = 0, c_z = 0, subChunks = [\<lparr>sc_y = 0, version = 1,
        layers = [\<lparr>l_index = 0, blocks = [\<lparr>b_index = 0, b_id = 5,
          b_name = ''unknown_block_5'', b_x = 0, b_y = 0, b_z = 0\<rparr>]\<rparr>]\<rparr>]\<rparr>,
      cacheChunk newDecoder \<lparr>c_x = 0, c_z = 0, subChunks = [\<lparr>sc_y = 0, version = 1,
        layers = [\<lparr>l_index = 0, blocks = [\<lparr>b_index = 0, b_id = 5,
          b_name = ''unknown_block_5'', b_x = 0, b_y = 0, b_z = 0\<rparr>]\<rparr>]\<rparr>]\<rparr>) \<and>
   (4 :: int) < int (length [1, 8, 1, 1, 5, 9 :: byte]) - 1 \<and>
   uint ([1, 8, 1, 1, 5, 9 :: byte] ! nat 4) = 5 \<and>
   length ([1, 8, 1, 1] @ replicate 4095 0 @ [7 :: byte]) = 4100 \<and>
   (\<exists>c. decodeChunk newDecoder (Some ([1, 8, 1, 1] @ replicate 4095 0 @ [7])) 0 0 =
          (Inr c, cacheChunk newDecoder c) \<and>
        (\<forall>sc \<in> set (subChunks c). \<forall>l \<in> set (layers sc). \<forall>b \<in> set (blocks l).
           b_index b \<noteq> 4095)) \<and>
   decodeChunk newDecoder (Some [1, 8, 1, 1, 5, 0]) 0 0 =
     decodeChunk newDecoder (Some [1, 8, 1, 1, 5, 9]) 0 0"
proof -
  have h: "2 \<le> length [1, 8, 1, 1, 5, 9 :: byte]" by simp
  have e: "decodeChunk newDecoder (Some [1, 8, 1, 1, 5, 9]) 0 0 =
     (Inr \<lparr>c_x = 0, c_z = 0, subChunks = [\<lparr>sc_y = 0, version = 1,
        layers = [\<lparr>l_index = 0, blocks = [\<lparr>b_index = 0, b_id = 5,
          b_name = ''unknown_block_5'', b_x = 0, b_y = 0, b_z = 0\<rparr>]\<rparr>]\<rparr>]\<rparr>,
      cacheChunk newDecoder \<lparr>c_x = 0, c_z = 0, subChunks = [\<lparr>sc_y = 0, version = 1,
        layers = [\<lparr>l_index = 0, blocks = [\<lparr>b_index = 0, b_id = 5,
          b_name = ''unknown_block_5'', b_x = 0, b_y = 0, b_z = 0\<rparr>]\<rparr>]\<rparr>]\<rparr>)"
    by (simp add: decode_eval)
  have n: "length ([1, 8, 1, 1] @ replicate 4095 0 @ [7 :: byte]) = 4100" by simp
  then have "2 \<le> length ([1, 8, 1, 1] @ replicate 4095 0 @ [7 :: byte])" by linarith
  from block_ids_before_last_byte [OF this, of newDecoder 0 0] n
  have f: "\<exists>c. decodeChunk newDecoder (Some ([1, 8, 1, 1] @ replicate 4095 0 @ [7])) 0 0 =
          (Inr c, cacheChunk newDecoder c) \<and>
        (\<forall>sc \<in> set (subChunks c). \<forall>l \<in> set (layers sc). \<forall>b \<in> set (blocks l).
           b_index b \<noteq> 4095)"
    by blast
  from block_ids_before_last_byte [OF h, of newDecoder 0 0]
  have "decodeChunk newDecoder (Some ([1, 8, 1, 1, 5, 9][length [1, 8, 1, 1, 5, 9 :: byte] - 1 := 0]))
      0 0 = decodeChunk newDecoder (Some [1, 8, 1, 1, 5, 9]) 0 0"
    by blast
  then have g: "decodeChunk newDecoder (Some [1, 8, 1, 1, 5, 0]) 0 0 =
     decodeChunk newDecoder (Some [1, 8, 1, 1, 5, 9]) 0 0"
    by simp
  from h e n f g show ?thesis by simp
qed

subsection \<open>The decoder's state\<close>

text \<open>Decoding reads the block mappings and nothing else of the decoder.\<close>

lemma createBlockData_mappings:
  "blockMappings d = blockMappings d' \<Longrightarrow> createBlockData d = createBlockData d'"
  by (intro ext) (simp add: createBlockData_def)

lemma readBlocks_mappings:
  "blockMappings d = blockMappings d' \<Longrightarrow>
   readBlocks d p offset i bs = readBlocks d' p offset i bs"
proof (induction d p offset i bs rule: readBlocks.induct)
  case (1 d payload offset i bs)
  have c: "createBlockData d = createBlockData d'"
    using "1.prems" by (rule createBlockData_mappings)
  show ?case
  proof (cases "i < 4096 \<and> offset < int (length payload) - 1")
    case False
    then show ?thesis by (simp add: readBlocks_stop)
  next
    case True
    show ?thesis
    proof (cases "readUInt8 payload offset")
      case (Inl e)
      then show ?thesis by (simp add: readBlocks_fail [OF True])
    next
      case (Inr blockId)
      from "1.IH" [OF True Inr "1.prems"] show ?thesis
        by (simp add: readBlocks_step [OF True Inr] c)
    qed
  qed
qed

lemma decodeLayers_mappings:
  "blockMappings d = blockMappings d' \<Longrightarrow>
   decodeLayers d p layerCount offset layer ls = decodeLayers d' p layerCount offset layer ls"
proof (induction d p layerCount offset layer ls rule: decodeLayers.induct)
  case (1 d payload layerCount offset layer ls)
  have r: "readBlocks d' payload offset 0 [] = readBlocks d payload offset 0 []"
    using readBlocks_mappings [OF "1.prems"] by simp
  show ?case
  proof (cases "layer < layerCount \<and> offset < int (length payload) - 1")
    case False
    then show ?thesis by (simp add: decodeLayers_stop)
  next
    case True
    from "1.IH" [OF True prod.collapse [of "readBlocks d payload offset 0 []"] "1.prems"]
    show ?thesis
      by (simp add: decodeLayers_step [OF True] r)
  qed
qed

lemma decodeSubChunk_mappings:
  "blockMappings d = blockMappings d' \<Longrightarrow>
   decodeSubChunk d p offset yLevel = decodeSubChunk d' p offset yLevel"
proof -
  assume "blockMappings d = blockMappings d'"
  then have l: "decodeLayers d p n (offset + 2) 0 [] = decodeLayers d' p n (offset + 2) 0 []" for n
    by (rule decodeLayers_mappings)
  show ?thesis
    unfolding decodeSubChunk_def l ..
qed

lemma decodeSubChunks_mappings:
  "blockMappings d = blockMappings d' \<Longrightarrow>
   decodeSubChunks d p n offset y scs = decodeSubChunks d' p n offset y scs"
proof (induction d p n offset y scs rule: decodeSubChunks.induct)
  case (1 d payload subChunkCount offset y scs)
  have sc: "decodeSubChunk d' payload offset y = decodeSubChunk d payload offset y"
    using decodeSubChunk_mappings [OF "1.prems"] by simp
  show ?case
  proof (cases "y < subChunkCount \<and> offset < int (length payload) - 1")
    case False
    then show ?thesis by (simp add: decodeSubChunks_stop)
  next
    case True
    show ?thesis
    proof (cases "decodeSubChunk d payload offset y")
      case (Inl e)
      then have "decodeSubChunk d' payload offset y = Inl e" by (simp add: sc)
      then show ?thesis
        by (simp add: decodeSubChunks_fail [OF True Inl] decodeSubChunks_fail [OF True])
    next
      case (Inr r)
      obtain s newOffset where r: "r = (s, newOffset)" by (cases r)
      have ok: "decodeSubChunk d payload offset y = Inr (s, newOffset)"
        using Inr r by simp
      have ok': "decodeSubChunk d' payload offset y = Inr (s, newOffset)"
        using ok by (simp add: sc)
      from "1.IH" [OF True Inr r [symmetric] "1.prems"] show ?thesis
        by (simp add: decodeSubChunks_step [OF True ok] decodeSubChunks_step [OF True ok'])
    qed
  qed
qed

lemma decodeChunkBody_mappings:
  "blockMappings d = blockMappings d' \<Longrightarrow>
   decodeChunkBody d payload chunkX chunkZ = decodeChunkBody d' payload chunkX chunkZ"
proof -
  assume "blockMappings d = blockMappings d'"
  then have s: "decodeSubChunks d p n 2 0 [] = decodeSubChunks d' p n 2 0 []" for p n
    by (rule decodeSubChunks_mappings)
  show ?thesis
    unfolding decodeChunkBody_def s ..
qed

lemma decodeChunk_Inr:
  assumes "decodeChunk d payload chunkX chunkZ = (Inr c, d')"
  shows "decodeChunkBody d payload chunkX chunkZ = Inr c \<and> d' = cacheChunk d c \<and>
    c_x c = chunkX \<and> c_z c = chunkZ"
proof -
  from assms have b: "decodeChunkBody d payload chunkX chunkZ = Inr c" and d: "d' = cacheChunk d c"
    by (auto simp: decodeChunk_def split: sum.splits)
  from b have "c_x c = chunkX \<and> c_z c = chunkZ"
    by (auto simp: decodeChunkBody_def split: option.splits if_splits sum.splits)
  with b d show ?thesis by simp
qed

text \<open>
  Claim C8. After two successful calls of \<open>decodeChunk\<close> for the same coordinates, the
  cache is the cache before the first call with the entry of these coordinates set to the
  chunk of the second call, and \<open>getLastDecodedChunk\<close> returns that chunk. The chunk of
  the second call is the one its payload decodes to on the decoder before the first call:
  nothing of the first chunk is merged into it.
\<close>

theorem redecode_overwrites:
  assumes "decodeChunk d0 payload1 x z = (Inr c1, d1)"
    and "decodeChunk d1 payload2 x z = (Inr c2, d2)"
  shows "getLastDecodedChunk d2 x z = Some c2 \<and>
    chunkCache d2 = (chunkCache d0)(cacheKey x z \<mapsto> c2) \<and>
    blockMappings d2 = blockMappings d0 \<and>
    fst (decodeChunk d0 payload2 x z) = Inr c2"
proof -
  from decodeChunk_Inr [OF assms(1)]
  have 1: "d1 = cacheChunk d0 c1" "c_x c1 = x" "c_z c1 = z" by simp_all
  from decodeChunk_Inr [OF assms(2)]
  have 2: "decodeChunkBody d1 payload2 x z = Inr c2" "d2 = cacheChunk d1 c2"
    "c_x c2 = x" "c_z c2 = z" by simp_all
  have m: "blockMappings d0 = blockMappings d1"
    by (simp add: 1 cacheChunk_def)
  have "decodeChunkBody d0 payload2 x z = Inr c2"
    using decodeChunkBody_mappings [OF m] 2(1) by simp
  then have "fst (decodeChunk d0 payload2 x z) = Inr c2"
    by (simp add: decodeChunk_def)
  then show ?thesis
    using 1 2 by (simp add: getLastDecodedChunk_def cacheChunk_def)
qed

theorem redecode_overwrites_witness:
  "decodeChunk newDecoder (Some [1, 8, 1, 1, 5, 0]) 2 3 =
     (Inr \<lparr>c_x = 2, c_z = 3, subChunks = [\<lparr>sc_y = 0, version = 1,
        layers = [\<lparr>l_index = 0, blocks = [\<lparr>b_index = 0, b_id = 5,
          b_name = ''unknown_block_5'', b_x = 0, b_y = 0, b_z = 0\<rparr>]\<rparr>]\<rparr>]\<rparr>,
      cacheChunk newDecoder \<lparr>c_x = 2, c_z = 3, subChunks = [\<lparr>sc_y = 0, version = 1,
        layers = [\<lparr>l_index = 0, blocks = [\<lparr>b_index = 0, b_id = 5,
          b_name = ''unknown_block_5'', b_x = 0, b_y = 0, b_z = 0\<rparr>]\<rparr>]\<rparr>]\<rparr>) \<and>
   getLastDecodedChunk
     (snd (decodeChunk (snd (decodeChunk newDecoder (Some [1, 8, 1, 1, 5, 0]) 2 3))
        (Some [0, 8]) 2 3)) 2 3
     = Some \<lparr>c_x = 2, c_z = 3, subChunks = []\<rparr> \<and>
   cacheKey 2 3 = ''2,3''"
proof -
  let ?c1 = "\<lparr>c_x = 2, c_z = 3, subChunks = [\<lparr>sc_y = 0, version = 1,
        layers = [\<lparr>l_index = 0, blocks = [\<lparr>b_index = 0, b_id = 5,
          b_name = ''unknown_block_5'', b_x = 0, b_y = 0, b_z = 0\<rparr>]\<rparr>]\<rparr>]\<rparr>"
  let ?c2 = "\<lparr>c_x = 2, c_z = 3, subChunks = []\<rparr>"
  have a: "decodeChunk newDecoder (Some [1, 8, 1, 1, 5, 0]) 2 3 =
      (Inr ?c1, cacheChunk newDecoder ?c1)"
    by (simp add: decode_eval)
  have b: "decodeChunk (cacheChunk newDecoder ?c1) (Some [0, 8]) 2 3 =
      (Inr ?c2, cacheChunk (cacheChunk newDecoder ?c1) ?c2)"
    by (simp add: decodeChunk_def decodeChunkBody_def readInt8_def decodeSubChunks.simps)
  have k: "cacheKey 2 3 = ''2,3''"
    by (simp add: cacheKey_def numberToString_def natToString.simps)
  from redecode_overwrites [OF a b] a b k show ?thesis by simp
qed

subsection \<open>Block names\<close>

lemma setBlockMappings_snoc:
  "setBlockMappings d (itemstates @ [state]) =
     (case runtime_id state of
        None \<Rightarrow> setBlockMappings d itemstates
      | Some rid \<Rightarrow> (setBlockMappings d itemstates)
          \<lparr>blockMappings := (blockMappings (setBlockMappings d itemstates))(rid \<mapsto> name state)\<rparr>)"
  unfolding setBlockMappings_def by simp

lemma setBlockMappings_cache: "chunkCache (setBlockMappings d itemstates) = chunkCache d"
  by (induction itemstates rule: rev_induct)
     (simp_all add: setBlockMappings_snoc setBlockMappings_def split: option.splits)

lemma setBlockMappings_lookup:
  "blockMappings (setBlockMappings d itemstates) rid =
     (case find (\<lambda>state. runtime_id state = Some rid) (rev itemstates) of
        None \<Rightarrow> blockMappings d rid
      | Some state \<Rightarrow> Some (name state))"
proof (induction itemstates rule: rev_induct)
  case Nil
  show ?case by (simp add: setBlockMappings_def)
next
  case (snoc state itemstates)
  show ?case
  proof (cases "runtime_id state")
    case None
    with snoc show ?thesis by (simp add: setBlockMappings_snoc)
  next
    case (Some r)
    with snoc show ?thesis by (simp add: setBlockMappings_snoc)
  qed
qed

text \<open>
  Claim C6 (as amended). After \<open>setBlockMappings\<close>, the table maps a runtime id to the
  name of the last entry of the sequence that carries this id, and is unchanged at the ids
  that no entry carries; entries without a runtime id change nothing. The name of a created
  block is the table's name for its id when the table has one that is not the empty
  string, and \<open>unknown_block_\<close> followed by the id otherwise.
\<close>

theorem block_names:
  "blockMappings (setBlockMappings d itemstates) rid =
     (case find (\<lambda>state. runtime_id state = Some rid) (rev itemstates) of
        None \<Rightarrow> blockMappings d rid
      | Some state \<Rightarrow> Some (name state)) \<and>
   chunkCache (setBlockMappings d itemstates) = chunkCache d \<and>
   b_name (createBlockData d blockId i) =
     (case blockMappings d blockId of
        None \<Rightarrow> ''unknown_block_'' @ numberToString blockId
      | Some n \<Rightarrow> if n = [] then ''unknown_block_'' @ numberToString blockId else n)"
  by (simp add: setBlockMappings_lookup setBlockMappings_cache createBlockData_def
        split: option.splits)

theorem block_names_witness:
  "blockMappings (setBlockMappings newDecoder
      [\<lparr>name = ''minecraft:stone'', runtime_id = Some 2\<rparr>,
       \<lparr>name = ''minecraft:glass'', runtime_id = None\<rparr>,
       \<lparr>name = ''minecraft:dirt'', runtime_id = Some 2\<rparr>]) 2 = Some ''minecraft:dirt'' \<and>
   blockMappings (setBlockMappings newDecoder
      [\<lparr>name = ''minecraft:stone'', runtime_id = Some 2\<rparr>,
       \<lparr>name = ''minecraft:glass'', runtime_id = None\<rparr>,
       \<lparr>name = ''minecraft:dirt'', runtime_id = Some 2\<rparr>]) 3 = None \<and>
   b_name (createBlockData (setBlockMappings newDecoder
      [\<lparr>name = ''minecraft:stone'', runtime_id = Some 2\<rparr>]) 2 0) = ''minecraft:stone'' \<and>
   b_name (createBlockData (setBlockMappings newDecoder
      [\<lparr>name = ''minecraft:stone'', runtime_id = Some 2\<rparr>]) 3 0) = ''unknown_block_3''"
  using block_names [of newDecoder
      "[\<lparr>name = ''minecraft:stone'', runtime_id = Some 2\<rparr>,
       \<lparr>name = ''minecraft:glass'', runtime_id = None\<rparr>,
       \<lparr>name = ''minecraft:dirt'', runtime_id = Some 2\<rparr>]" 2]
    block_names [of newDecoder
      "[\<lparr>name = ''minecraft:stone'', runtime_id = Some 2\<rparr>,
       \<lparr>name = ''minecraft:glass'', runtime_id = None\<rparr>,
       \<lparr>name = ''minecraft:dirt'', runtime_id = Some 2\<rparr>]" 3]
    block_names [of "setBlockMappings newDecoder
      [\<lparr>name = ''minecraft:stone'', runtime_id = Some 2\<rparr>]" "[]" 2 2 0]
    block_names [of "setBlockMappings newDecoder
      [\<lparr>name = ''minecraft:stone'', runtime_id = Some 2\<rparr>]" "[]" 2 3 0]
  by (simp add: newDecoder_def setBlockMappings_def numberToString_def natToString.simps)

text \<open>
  The claim as first stated fails for an entry with the empty name: the table then has an
  entry for the id 5, and the created block is named by the placeholder, not by the entry.
\<close>

theorem block_names_counterexample:
  "blockMappings (setBlockMappings newDecoder [\<lparr>name = [], runtime_id = Some 5\<rparr>]) 5 = Some [] \<and>
   b_name (createBlockData (setBlockMappings newDecoder [\<lparr>name = [], runtime_id = Some 5\<rparr>]) 5 0)
     = ''unknown_block_5'' \<and>
   b_name (createBlockData (setBlockMappings newDecoder [\<lparr>name = [], runtime_id = Some 5\<rparr>]) 5 0)
     \<noteq> []"
  by (simp add: newDecoder_def setBlockMappings_def createBlockData_def numberToString_def
        natToString.simps)

end
